theory Spec2Isabelle
  imports Complex_Main "HOL-Library.Multiset" "HOL-Library.AList"
begin

section \<open>Python values\<close>

datatype py_error = KeyError | IndexError | ServiceError

subsection \<open>Floats\<close>

text \<open>
  A Python float is an IEEE 754 double. The model holds a float as the real number that
  it stands for and rounds the exact result of every arithmetic operation of the queue
  manager to the nearest double, ties to the even mantissa, as the hardware does.

  The doubles of magnitude from \<open>2\<^sup>e\<close> up to \<open>2\<^sup>e\<^sup>+\<^sup>1\<close> are the multiples of \<open>2\<^sup>e\<^sup>-\<^sup>5\<^sup>2\<close>,
  for \<open>e\<close> from -1022 to 1023; below \<open>2\<^sup>-\<^sup>1\<^sup>0\<^sup>2\<^sup>2\<close> they are the multiples of \<open>2\<^sup>-\<^sup>1\<^sup>0\<^sup>7\<^sup>4\<close>.
  Infinities and NaN are not modelled: beyond the largest double, where the hardware gives
  infinity, \<open>fl\<close> goes on rounding to the multiples of \<open>2\<^sup>9\<^sup>7\<^sup>1\<close>.
\<close>

definition round_half_even :: "real \<Rightarrow> int" where
  "round_half_even y =
     (let f = \<lfloor>y\<rfloor>; d = y - of_int f
      in if d < 1 / 2 then f else if 1 / 2 < d then f + 1
         else if even f then f else f + 1)"

definition pow2 :: "int \<Rightarrow> real" where
  "pow2 k = 2 powr of_int k"

definition double_exponent :: "real \<Rightarrow> int" where
  "double_exponent a =
     (if a < pow2 (- 1022) then - 1022
      else if pow2 1023 \<le> a then 1023
      else \<lfloor>log 2 a\<rfloor>)"

text \<open>The distance between neighbouring doubles at the magnitude \<open>a\<close>.\<close>

definition spacing :: "real \<Rightarrow> real" where
  "spacing a = pow2 (double_exponent a - 52)"

definition nearest_multiple :: "real \<Rightarrow> real \<Rightarrow> real" where
  "nearest_multiple u x = of_int (round_half_even (x / u)) * u"

text \<open>The double nearest to \<open>x\<close>.\<close>

definition fl :: "real \<Rightarrow> real" where
  "fl x = nearest_multiple (spacing \<bar>x\<bar>) x"

text \<open>The operators \<^verbatim>\<open>+\<close>, \<^verbatim>\<open>-\<close> and \<^verbatim>\<open>*\<close> on floats.\<close>

definition fadd :: "real \<Rightarrow> real \<Rightarrow> real" where
  "fadd x y = fl (x + y)"

definition fsub :: "real \<Rightarrow> real \<Rightarrow> real" where
  "fsub x y = fl (x - y)"

definition fmul :: "real \<Rightarrow> real \<Rightarrow> real" where
  "fmul x y = fl (x * y)"

text \<open>
  \<^verbatim>\<open>round(x, 2)\<close> on a float: CPython rounds the exact value of the double to the
  nearest hundredth, ties to the even hundredth, and returns the double nearest to that
  decimal.
\<close>

definition py_round2 :: "real \<Rightarrow> real" where
  "py_round2 x = fl (of_int (round_half_even (x * 100)) / 100)"

section \<open>The heapq module\<close>

text \<open>
  \<^verbatim>\<open>heapq\<close> of the Python standard library, on a list, transcribed from its reference
  implementation. Items are compared with \<^verbatim>\<open><\<close> only; both dataclasses of the program are
  declared \<^verbatim>\<open>order=True\<close> with a single compared field, which is the \<open>key\<close> here.

  \<^verbatim>\<open>_siftdown(heap, startpos, pos)\<close>: the loop, with \<open>newitem\<close> held aside.
\<close>

function siftdown_loop :: "('a \<Rightarrow> 'k::linorder) \<Rightarrow> 'a list \<Rightarrow> nat \<Rightarrow> nat \<Rightarrow> 'a \<Rightarrow> 'a list" where
  "siftdown_loop key heap startpos pos newitem =
     (if startpos < pos then
        (if key newitem < key (heap ! ((pos - 1) div 2))
         then siftdown_loop key (heap[pos := heap ! ((pos - 1) div 2)]) startpos ((pos - 1) div 2) newitem
         else heap[pos := newitem])
      else heap[pos := newitem])"
  by pat_completeness auto
termination
  by (relation "measure (\<lambda>(key, heap, startpos, pos, newitem). pos)") auto

declare siftdown_loop.simps [simp del]

definition siftdown :: "('a \<Rightarrow> 'k::linorder) \<Rightarrow> 'a list \<Rightarrow> nat \<Rightarrow> nat \<Rightarrow> 'a list" where
  "siftdown key heap startpos pos = siftdown_loop key heap startpos pos (heap ! pos)"

text \<open>
  \<^verbatim>\<open>_siftup(heap, pos)\<close>: first the smaller child is moved up until a leaf is reached
  (the loop returns the list and the leaf position), then \<open>newitem\<close> is put at the leaf
  and sifted down to its place.
\<close>

definition smaller_child :: "('a \<Rightarrow> 'k::linorder) \<Rightarrow> 'a list \<Rightarrow> nat \<Rightarrow> nat \<Rightarrow> nat" where
  "smaller_child key heap pos endpos =
     (if 2 * pos + 2 < endpos \<and> \<not> key (heap ! (2 * pos + 1)) < key (heap ! (2 * pos + 2))
      then 2 * pos + 2 else 2 * pos + 1)"

function siftup_loop :: "('a \<Rightarrow> 'k::linorder) \<Rightarrow> 'a list \<Rightarrow> nat \<Rightarrow> nat \<Rightarrow> 'a list \<times> nat" where
  "siftup_loop key heap pos endpos =
     (if 2 * pos + 1 < endpos
      then siftup_loop key (heap[pos := heap ! smaller_child key heap pos endpos])
             (smaller_child key heap pos endpos) endpos
      else (heap, pos))"
  by pat_completeness auto
termination
  by (relation "measure (\<lambda>(key, heap, pos, endpos). endpos - pos)")
     (auto simp: smaller_child_def)

declare siftup_loop.simps [simp del]

definition siftup :: "('a \<Rightarrow> 'k::linorder) \<Rightarrow> 'a list \<Rightarrow> nat \<Rightarrow> 'a list" where
  "siftup key heap pos =
     (case siftup_loop key heap pos (length heap) of
        (heap', leaf) \<Rightarrow> siftdown key (heap'[leaf := heap ! pos]) pos leaf)"

definition heappush :: "('a \<Rightarrow> 'k::linorder) \<Rightarrow> 'a list \<Rightarrow> 'a \<Rightarrow> 'a list" where
  "heappush key heap item = siftdown key (heap @ [item]) 0 (length heap)"

text \<open>\<^verbatim>\<open>heappop\<close> raises IndexError on the empty list.\<close>

definition heappop :: "('a \<Rightarrow> 'k::linorder) \<Rightarrow> 'a list \<Rightarrow> py_error + ('a \<times> 'a list)" where
  "heappop key heap =
     (if heap = [] then Inl IndexError
      else if butlast heap \<noteq> []
        then Inr (heap ! 0, siftup key ((butlast heap)[0 := last heap]) 0)
        else Inr (last heap, []))"

definition heapify :: "('a \<Rightarrow> 'k::linorder) \<Rightarrow> 'a list \<Rightarrow> 'a list" where
  "heapify key x = fold (\<lambda>i h. siftup key h i) (rev [0..<length x div 2]) x"

section \<open>Data model (tools/priority\_queue\_manager.py)\<close>

datatype EmergencyLevel = NORMAL | PRIORITY | CRITICAL

text \<open>The value of the IntEnum member.\<close>

fun level_value :: "EmergencyLevel \<Rightarrow> int" where
  "level_value NORMAL = 0"
| "level_value PRIORITY = 1"
| "level_value CRITICAL = 2"

text \<open>
  The two dictionaries carried by a patient, reduced to the keys the scheduler reads.
  \<open>traffic_duration_mins\<close> is the result of the chained lookup
  \<^verbatim>\<open>travel_options / driving / traffic_duration_mins\<close>, None when a level is missing.
\<close>

record analysis_dict =
  urgency_score :: "int option"
  estimated_consultation_mins :: "int option"

record travel_dict =
  traffic_duration_mins :: "real option"

definition empty_analysis :: analysis_dict where
  "empty_analysis = \<lparr>urgency_score = None, estimated_consultation_mins = None\<rparr>"

definition empty_travel :: travel_dict where
  "empty_travel = \<lparr>traffic_duration_mins = None\<rparr>"

record PatientNode =
  priority_score :: real
  token_number :: int
  name :: string
  contact_number :: string
  emergency_level :: EmergencyLevel
  travel_eta_mins :: real
  predicted_consult_mins :: int
  waiting_time_mins :: real
  arrival_probability :: real
  symptoms :: string
  symptoms_analysis :: analysis_dict
  location :: string
  travel_data :: travel_dict
  booking_time :: string
  expected_arrival :: "string option"
  actual_arrival :: "string option"
  last_priority_update :: string
  position_history :: "int list"

text \<open>The argument of \<^verbatim>\<open>enqueue_patient\<close>: a dictionary, a key of which may be absent.\<close>

record patient_data =
  pd_token_number :: "int option"
  pd_name :: "string option"
  pd_contact_number :: "string option"
  pd_symptoms :: "string option"
  pd_symptoms_analysis :: "analysis_dict option"
  pd_location :: "string option"
  pd_travel_data :: "travel_dict option"
  pd_booking_time :: "string option"

text \<open>The argument of \<^verbatim>\<open>update_patient_attributes\<close>.\<close>

record updates_dict =
  upd_travel_eta_mins :: "real option"
  upd_actual_arrival :: "string option option"
  upd_arrival_probability :: "real option"

text \<open>PriorityWeights.\<close>

definition EMERGENCY :: real where "EMERGENCY = 5"
definition TRAVEL_ETA :: real where "TRAVEL_ETA = 2"
definition CONSULTATION_TIME :: real where "CONSULTATION_TIME = 1"
definition WAITING_TIME :: real where "WAITING_TIME = - 3"
definition ARRIVAL_PROB :: real where "ARRIVAL_PROB = 3 / 2"

text \<open>
  The manager. Python objects are shared: a node of the main queue is the very object
  that \<open>patient_map\<close> holds, so that a mutation through the map is seen in the queue,
  while a node of the emergency queue is a separate object. \<open>objs\<close> is the store of the
  node objects, an object's identity is its index there, and the queues and the map hold
  identities. The dictionaries are association lists in insertion order.
\<close>

record scheduler =
  objs :: "PatientNode list"
  main_queue :: "nat list"
  emergency_queue :: "nat list"
  patient_map :: "(int \<times> nat) list"
  wait_tracker :: "(int \<times> real) list"
  total_enqueued :: nat
  total_dequeued :: nat
  reorder_count :: nat

text \<open>
  The manager that \<^verbatim>\<open>__init__\<close> builds when the database holds no active patient or
  cannot be read: \<^verbatim>\<open>_load_from_mongodb\<close> then adds nothing. With patients in the database
  the manager starts with their nodes queued and tracked, each with the score that the
  database holds for it.
\<close>

definition init_scheduler :: scheduler where
  "init_scheduler = \<lparr>objs = [], main_queue = [], emergency_queue = [], patient_map = [],
     wait_tracker = [], total_enqueued = 0, total_dequeued = 0, reorder_count = 0\<rparr>"

text \<open>The comparison key of a queue entry: the \<open>priority_score\<close> of the object.\<close>

definition score_of :: "PatientNode list \<Rightarrow> nat \<Rightarrow> real" where
  "score_of os r = priority_score (os ! r)"

section \<open>Operations\<close>

text \<open>
  The weighted sum is evaluated from left to right; an integer operand is converted to a
  float by the multiplication.
\<close>

definition calculate_priority_score :: "PatientNode \<Rightarrow> real" where
  "calculate_priority_score patient =
     py_round2
       (fadd (fadd (fadd (fadd (fmul EMERGENCY (of_int (level_value (emergency_level patient))))
                               (fmul TRAVEL_ETA (travel_eta_mins patient)))
                         (fmul CONSULTATION_TIME (of_int (predicted_consult_mins patient))))
                   (fmul WAITING_TIME (waiting_time_mins patient)))
             (fmul ARRIVAL_PROB (fsub 1 (arrival_probability patient))))"

definition classify_urgency :: "int \<Rightarrow> EmergencyLevel" where
  "classify_urgency urgency =
     (if 8 \<le> urgency then CRITICAL else if 6 \<le> urgency then PRIORITY else NORMAL)"

definition get_default :: "'a option \<Rightarrow> 'a \<Rightarrow> 'a" where
  "get_default v d = (case v of None \<Rightarrow> d | Some x \<Rightarrow> x)"

text \<open>The node built from the dictionary, scored; \<open>now1\<close> and \<open>now2\<close> are the two clock
  readings.\<close>

definition new_patient :: "patient_data \<Rightarrow> int \<Rightarrow> string \<Rightarrow> string \<Rightarrow> string \<Rightarrow> string \<Rightarrow> PatientNode" where
  "new_patient pd tok nm contact now1 now2 =
     (let analysis = get_default (pd_symptoms_analysis pd) empty_analysis;
          travel = get_default (pd_travel_data pd) empty_travel;
          patient = \<lparr>priority_score = 0, token_number = tok, name = nm,
            contact_number = contact,
            emergency_level = classify_urgency (get_default (urgency_score analysis) 5),
            travel_eta_mins = get_default (traffic_duration_mins travel) 20,
            predicted_consult_mins = get_default (estimated_consultation_mins analysis) 15,
            waiting_time_mins = 0, arrival_probability = 1,
            symptoms = get_default (pd_symptoms pd) '''',
            symptoms_analysis = analysis,
            location = get_default (pd_location pd) '''',
            travel_data = travel,
            booking_time = get_default (pd_booking_time pd) now1,
            expected_arrival = None, actual_arrival = None,
            last_priority_update = '''', position_history = []\<rparr>
      in patient\<lparr>priority_score := calculate_priority_score patient,
                 last_priority_update := now2\<rparr>)"

text \<open>
  The constructor call that \<^verbatim>\<open>enqueue_patient\<close> makes for the node of the emergency
  queue and \<^verbatim>\<open>peek\<close> for its copy of that node: a new node with the score negated, nine
  fields taken over and the others at their defaults.
\<close>

definition negated_copy :: "PatientNode \<Rightarrow> PatientNode" where
  "negated_copy patient =
     \<lparr>priority_score = - priority_score patient, token_number = token_number patient,
      name = name patient, contact_number = contact_number patient,
      emergency_level = emergency_level patient,
      travel_eta_mins = travel_eta_mins patient,
      predicted_consult_mins = predicted_consult_mins patient,
      waiting_time_mins = 0, arrival_probability = 1,
      symptoms = symptoms patient, symptoms_analysis = symptoms_analysis patient,
      location = '''', travel_data = empty_travel, booking_time = '''',
      expected_arrival = None, actual_arrival = None,
      last_priority_update = '''', position_history = []\<rparr>"

definition enqueue_patient ::
    "patient_data \<Rightarrow> string \<Rightarrow> string \<Rightarrow> scheduler \<Rightarrow> (py_error + PatientNode) \<times> scheduler" where
  "enqueue_patient pd now1 now2 s =
     (case (pd_token_number pd, pd_name pd, pd_contact_number pd) of
        (Some tok, Some nm, Some contact) \<Rightarrow>
          (let patient = new_patient pd tok nm contact now1 now2;
               r = length (objs s);
               s1 = (if emergency_level patient = CRITICAL
                     then s\<lparr>objs := objs s @ [patient, negated_copy patient],
                            emergency_queue :=
                              heappush (score_of (objs s @ [patient, negated_copy patient]))
                                (emergency_queue s) (r + 1)\<rparr>
                     else s\<lparr>objs := objs s @ [patient],
                            main_queue :=
                              heappush (score_of (objs s @ [patient])) (main_queue s) r\<rparr>)
           in (Inr patient,
               s1\<lparr>patient_map := AList.update tok r (patient_map s),
                  wait_tracker := AList.update tok 0 (wait_tracker s),
                  total_enqueued := total_enqueued s + 1\<rparr>))
      | _ \<Rightarrow> (Inl KeyError, s))"

text \<open>The bookkeeping common to both branches of \<^verbatim>\<open>dequeue_next_patient\<close>.\<close>

definition untrack :: "int \<Rightarrow> scheduler \<Rightarrow> scheduler" where
  "untrack tok s =
     s\<lparr>patient_map := AList.delete tok (patient_map s),
       wait_tracker := AList.delete tok (wait_tracker s),
       total_dequeued := total_dequeued s + 1\<rparr>"

definition dequeue_next_patient :: "scheduler \<Rightarrow> (py_error + PatientNode option) \<times> scheduler" where
  "dequeue_next_patient s =
     (if emergency_queue s \<noteq> [] then
        (case heappop (score_of (objs s)) (emergency_queue s) of
           Inl e \<Rightarrow> (Inl e, s)
         | Inr (r, q) \<Rightarrow>
             (let patient = (objs s ! r)\<lparr>priority_score := - priority_score (objs s ! r)\<rparr>
              in (Inr (Some patient),
                  untrack (token_number patient)
                    (s\<lparr>objs := (objs s)[r := patient], emergency_queue := q\<rparr>))))
      else if main_queue s \<noteq> [] then
        (case heappop (score_of (objs s)) (main_queue s) of
           Inl e \<Rightarrow> (Inl e, s)
         | Inr (r, q) \<Rightarrow>
             (Inr (Some (objs s ! r)),
              untrack (token_number (objs s ! r)) (s\<lparr>main_queue := q\<rparr>)))
      else (Inr None, s))"

definition peek :: "scheduler \<Rightarrow> PatientNode option" where
  "peek s =
     (if emergency_queue s \<noteq> [] then Some (negated_copy (objs s ! (emergency_queue s ! 0)))
      else if main_queue s \<noteq> [] then Some (objs s ! (main_queue s ! 0))
      else None)"

definition remove_patient :: "int \<Rightarrow> scheduler \<Rightarrow> bool \<times> scheduler" where
  "remove_patient tok s =
     (case map_of (patient_map s) tok of
        None \<Rightarrow> (False, s)
      | Some r \<Rightarrow>
          (let keep = filter (\<lambda>p. token_number (objs s ! p) \<noteq> tok);
               s1 = (if emergency_level (objs s ! r) = CRITICAL
                     then s\<lparr>emergency_queue :=
                              heapify (score_of (objs s)) (keep (emergency_queue s))\<rparr>
                     else s\<lparr>main_queue :=
                              heapify (score_of (objs s)) (keep (main_queue s))\<rparr>)
           in (True, untrack tok s1)))"

definition reheapify_queue :: "scheduler \<Rightarrow> scheduler" where
  "reheapify_queue s =
     s\<lparr>main_queue := heapify (score_of (objs s)) (main_queue s),
       emergency_queue := heapify (score_of (objs s)) (emergency_queue s),
       reorder_count := reorder_count s + 1\<rparr>"

definition apply_updates :: "updates_dict \<Rightarrow> PatientNode \<Rightarrow> PatientNode" where
  "apply_updates u p =
     (let p1 = (case upd_travel_eta_mins u of None \<Rightarrow> p | Some v \<Rightarrow> p\<lparr>travel_eta_mins := v\<rparr>);
          p2 = (case upd_actual_arrival u of None \<Rightarrow> p1 | Some v \<Rightarrow> p1\<lparr>actual_arrival := v\<rparr>)
      in (case upd_arrival_probability u of None \<Rightarrow> p2
          | Some v \<Rightarrow> p2\<lparr>arrival_probability := v\<rparr>))"

definition update_patient_attributes ::
    "int \<Rightarrow> updates_dict \<Rightarrow> string \<Rightarrow> scheduler \<Rightarrow> bool \<times> scheduler" where
  "update_patient_attributes tok u now s =
     (case map_of (patient_map s) tok of
        None \<Rightarrow> (False, s)
      | Some r \<Rightarrow>
          (let p = apply_updates u (objs s ! r);
               p' = p\<lparr>priority_score := calculate_priority_score p,
                      last_priority_update := now\<rparr>
           in (True, reheapify_queue (s\<lparr>objs := (objs s)[r := p']\<rparr>))))"

text \<open>
  \<^verbatim>\<open>apply_aging\<close>. One pass of the loop body on a node: the waiting time is set from
  the wait tracker and the score is recalculated.
\<close>

definition age_node :: "real \<Rightarrow> PatientNode \<Rightarrow> PatientNode" where
  "age_node waited patient =
     (patient\<lparr>waiting_time_mins := waited\<rparr>)
       \<lparr>priority_score :=
          calculate_priority_score (patient\<lparr>waiting_time_mins := waited\<rparr>)\<rparr>"

text \<open>
  The loop over the items of \<open>patient_map\<close>. It carries the store, the wait tracker and
  the number of boosts; \<^verbatim>\<open>wait_tracker[token] += elapsed_mins\<close> raises KeyError on an
  untracked token, with the mutations made so far kept.
\<close>

fun aging_loop ::
    "real \<Rightarrow> (int \<times> nat) list \<Rightarrow> PatientNode list \<Rightarrow> (int \<times> real) list \<Rightarrow> nat
       \<Rightarrow> py_error option \<times> PatientNode list \<times> (int \<times> real) list \<times> nat" where
  "aging_loop elapsed [] os wt boosts = (None, os, wt, boosts)"
| "aging_loop elapsed ((tok, r) # items) os wt boosts =
     (case map_of wt tok of
        None \<Rightarrow> (Some KeyError, os, wt, boosts)
      | Some w \<Rightarrow>
          aging_loop elapsed items (os[r := age_node (fadd w elapsed) (os ! r)])
            (AList.update tok (fadd w elapsed) wt)
            (if priority_score (age_node (fadd w elapsed) (os ! r)) < priority_score (os ! r)
             then boosts + 1 else boosts))"

definition apply_aging :: "real \<Rightarrow> scheduler \<Rightarrow> py_error option \<times> scheduler" where
  "apply_aging elapsed s =
     (case aging_loop elapsed (patient_map s) (objs s) (wait_tracker s) 0 of
        (Some e, os, wt, boosts) \<Rightarrow> (Some e, s\<lparr>objs := os, wait_tracker := wt\<rparr>)
      | (None, os, wt, boosts) \<Rightarrow>
          (None, if 0 < boosts then reheapify_queue (s\<lparr>objs := os, wait_tracker := wt\<rparr>)
                 else s\<lparr>objs := os, wait_tracker := wt\<rparr>))"

section \<open>Heap order\<close>

text \<open>
  The list is a heap from index \<open>i\<close> on when every entry with parent index at least \<open>i\<close>
  is not below its parent; \<open>heap_hole\<close> leaves out the pairs that involve the position
  being filled and asks instead that the children of that position are not below its parent;
  \<open>desc i p\<close> says that \<open>p\<close> lies in the subtree rooted at \<open>i\<close>.
\<close>

definition heap_from :: "('a \<Rightarrow> 'k::linorder) \<Rightarrow> 'a list \<Rightarrow> nat \<Rightarrow> bool" where
  "heap_from key xs i \<longleftrightarrow>
     (\<forall>c. 0 < c \<and> c < length xs \<and> i \<le> (c - 1) div 2 \<longrightarrow> key (xs ! ((c - 1) div 2)) \<le> key (xs ! c))"

definition is_heap :: "('a \<Rightarrow> 'k::linorder) \<Rightarrow> 'a list \<Rightarrow> bool" where
  "is_heap key xs \<longleftrightarrow> heap_from key xs 0"

definition heap_hole :: "('a \<Rightarrow> 'k::linorder) \<Rightarrow> 'a list \<Rightarrow> nat \<Rightarrow> nat \<Rightarrow> bool" where
  "heap_hole key xs i pos \<longleftrightarrow>
     (\<forall>c. 0 < c \<and> c < length xs \<and> i \<le> (c - 1) div 2 \<and> (c - 1) div 2 \<noteq> pos \<and> c \<noteq> pos
        \<longrightarrow> key (xs ! ((c - 1) div 2)) \<le> key (xs ! c)) \<and>
     (i < pos \<longrightarrow> (\<forall>c. 0 < c \<and> c < length xs \<and> (c - 1) div 2 = pos
        \<longrightarrow> key (xs ! ((pos - 1) div 2)) \<le> key (xs ! c)))"

inductive desc :: "nat \<Rightarrow> nat \<Rightarrow> bool" for i :: nat where
  desc_refl: "desc i i"
| desc_left: "desc i p \<Longrightarrow> desc i (2 * p + 1)"
| desc_right: "desc i p \<Longrightarrow> desc i (2 * p + 2)"

text \<open>
  \<^verbatim>\<open>get_queue_snapshot\<close>. Each entry is one of the dictionaries of the list \<open>patients\<close>;
  \<^verbatim>\<open>list.sort\<close> is stable, as \<open>sort_key\<close> is. The method is given the shape of the
  mutating ones: it returns its result and the manager it leaves behind.
\<close>

record snapshot_entry =
  se_token_number :: int
  se_name :: string
  se_priority_score :: real
  se_emergency_level :: string
  se_waiting_time_mins :: real
  se_travel_eta_mins :: real
  se_symptoms :: string

record queue_snapshot =
  total_patients :: nat
  emergency_count :: nat
  main_queue_count :: nat
  patients :: "snapshot_entry list"
  stat_total_enqueued :: nat
  stat_total_dequeued :: nat
  stat_reorder_count :: nat

fun level_name :: "EmergencyLevel \<Rightarrow> string" where
  "level_name NORMAL = ''NORMAL''"
| "level_name PRIORITY = ''PRIORITY''"
| "level_name CRITICAL = ''CRITICAL''"

definition emergency_entry :: "scheduler \<Rightarrow> nat \<Rightarrow> snapshot_entry" where
  "emergency_entry s r =
     \<lparr>se_token_number = token_number (objs s ! r), se_name = name (objs s ! r),
      se_priority_score = - priority_score (objs s ! r),
      se_emergency_level = ''CRITICAL'',
      se_waiting_time_mins = get_default (map_of (wait_tracker s) (token_number (objs s ! r))) 0,
      se_travel_eta_mins = travel_eta_mins (objs s ! r),
      se_symptoms = symptoms (objs s ! r)\<rparr>"

definition main_entry :: "scheduler \<Rightarrow> nat \<Rightarrow> snapshot_entry" where
  "main_entry s r =
     \<lparr>se_token_number = token_number (objs s ! r), se_name = name (objs s ! r),
      se_priority_score = priority_score (objs s ! r),
      se_emergency_level = level_name (emergency_level (objs s ! r)),
      se_waiting_time_mins = get_default (map_of (wait_tracker s) (token_number (objs s ! r))) 0,
      se_travel_eta_mins = travel_eta_mins (objs s ! r),
      se_symptoms = symptoms (objs s ! r)\<rparr>"

definition all_patients :: "scheduler \<Rightarrow> snapshot_entry list" where
  "all_patients s =
     map (emergency_entry s) (emergency_queue s) @ map (main_entry s) (main_queue s)"

definition get_queue_snapshot :: "scheduler \<Rightarrow> queue_snapshot \<times> scheduler" where
  "get_queue_snapshot s =
     (let emergency_patients =
            sort_key se_priority_score
              (filter (\<lambda>p. se_emergency_level p \<in> set [''PRIORITY'', ''CRITICAL''])
                 (all_patients s));
          main_patients =
            sort_key se_priority_score
              (filter (\<lambda>p. se_emergency_level p = ''NORMAL'') (all_patients s));
          sorted_patients = emergency_patients @ main_patients
      in (\<lparr>total_patients = length sorted_patients,
           emergency_count = length emergency_patients,
           main_queue_count = length main_patients,
           patients = sorted_patients,
           stat_total_enqueued = total_enqueued s,
           stat_total_dequeued = total_dequeued s,
           stat_reorder_count = reorder_count s\<rparr>, s))"

section \<open>Runs of the manager\<close>

text \<open>
  A call of a mutating method with its arguments, clock readings included, and the manager
  after a sequence of calls on the empty one. An exception leaves the manager as
  the call left it.
\<close>

datatype op =
    Enqueue patient_data string string
  | Dequeue
  | Remove int
  | Update int updates_dict string
  | Aging real

fun apply_op :: "op \<Rightarrow> scheduler \<Rightarrow> scheduler" where
  "apply_op (Enqueue pd now1 now2) s = snd (enqueue_patient pd now1 now2 s)"
| "apply_op Dequeue s = snd (dequeue_next_patient s)"
| "apply_op (Remove tok) s = snd (remove_patient tok s)"
| "apply_op (Update tok u now) s = snd (update_patient_attributes tok u now s)"
| "apply_op (Aging elapsed) s = snd (apply_aging elapsed s)"

definition run :: "op list \<Rightarrow> scheduler" where
  "run ops = fold apply_op ops init_scheduler"

text \<open>The nodes that the successful \<^verbatim>\<open>enqueue_patient\<close> calls of a run have built.\<close>

fun enqueued_nodes :: "op list \<Rightarrow> PatientNode list" where
  "enqueued_nodes [] = []"
| "enqueued_nodes (Enqueue pd now1 now2 # ops) =
     (case (pd_token_number pd, pd_name pd, pd_contact_number pd) of
        (Some tok, Some nm, Some contact) \<Rightarrow>
          new_patient pd tok nm contact now1 now2 # enqueued_nodes ops
      | _ \<Rightarrow> enqueued_nodes ops)"
| "enqueued_nodes (_ # ops) = enqueued_nodes ops"

text \<open>The score of the documented formula, before rounding.\<close>

definition score_formula :: "PatientNode \<Rightarrow> real" where
  "score_formula p =
     5 * of_int (level_value (emergency_level p)) + 2 * travel_eta_mins p +
     1 * of_int (predicted_consult_mins p) - 3 * waiting_time_mins p +
     3 / 2 * (1 - arrival_probability p)"

text \<open>
  The order of the snapshot as the specification words it: the records of the emergency
  structure by ascending score, then those of the main structure by ascending score.
\<close>

definition snapshot_order_spec :: "scheduler \<Rightarrow> snapshot_entry list" where
  "snapshot_order_spec s =
     sort_key se_priority_score (map (emergency_entry s) (emergency_queue s)) @
     sort_key se_priority_score (map (main_entry s) (main_queue s))"

section \<open>Invariants of the manager\<close>

text \<open>
  Every node of the main queue exists and is not CRITICAL. Every node of the emergency
  queue exists, occurs once, and is the negated copy of a CRITICAL node out of \<open>ns\<close>;
  the queue is a heap. Every tracked node exists, is no node of the emergency queue,
  carries its token and the score of its present fields, and waits as long as the wait
  tracker says; the tokens of the map are distinct.
\<close>

definition inv_main :: "scheduler \<Rightarrow> bool" where
  "inv_main s \<longleftrightarrow>
     (\<forall>r \<in> set (main_queue s). r < length (objs s) \<and> emergency_level (objs s ! r) \<noteq> CRITICAL)"

definition inv_emergency :: "PatientNode list \<Rightarrow> scheduler \<Rightarrow> bool" where
  "inv_emergency ns s \<longleftrightarrow>
     (\<forall>r \<in> set (emergency_queue s). r < length (objs s) \<and>
        (\<exists>P \<in> set ns. emergency_level P = CRITICAL \<and> objs s ! r = negated_copy P)) \<and>
     distinct (emergency_queue s) \<and>
     is_heap (score_of (objs s)) (emergency_queue s)"

definition inv_map :: "scheduler \<Rightarrow> bool" where
  "inv_map s \<longleftrightarrow>
     (\<forall>tok r. map_of (patient_map s) tok = Some r \<longrightarrow>
        r < length (objs s) \<and> r \<notin> set (emergency_queue s) \<and>
        token_number (objs s ! r) = tok \<and>
        priority_score (objs s ! r) = calculate_priority_score (objs s ! r) \<and>
        map_of (wait_tracker s) tok = Some (waiting_time_mins (objs s ! r))) \<and>
     distinct (map fst (patient_map s))"

definition sched_inv :: "PatientNode list \<Rightarrow> scheduler \<Rightarrow> bool" where
  "sched_inv ns s \<longleftrightarrow> inv_main s \<and> inv_emergency ns s \<and> inv_map s"

text \<open>
  What \<^verbatim>\<open>apply_aging\<close> relies on: the keys of \<open>patient_map\<close> are distinct (it is a
  dictionary), every tracked token has a node object of its own in the store, and the wait
  tracker holds for it the waiting time of that object. \<^verbatim>\<open>enqueue_patient\<close> and
  \<^verbatim>\<open>_load_from_mongodb\<close> add a token to both dictionaries with a new object, and
  \<^verbatim>\<open>apply_aging\<close> writes the same waiting time to both.
\<close>

definition tracking_ok :: "scheduler \<Rightarrow> bool" where
  "tracking_ok s \<longleftrightarrow>
     distinct (map fst (patient_map s)) \<and> distinct (map snd (patient_map s)) \<and>
     (\<forall>(tok, r) \<in> set (patient_map s).
        r < length (objs s) \<and>
        map_of (wait_tracker s) tok = Some (waiting_time_mins (objs s ! r)))"

section \<open>Scenarios\<close>

text \<open>A booking dictionary with the keys of the test script, and its three patients.\<close>

definition booking :: "int \<Rightarrow> string \<Rightarrow> int \<Rightarrow> real \<Rightarrow> int \<Rightarrow> patient_data" where
  "booking tok nm urgency travel consult =
     \<lparr>pd_token_number = Some tok, pd_name = Some nm, pd_contact_number = Some ''+91'',
      pd_symptoms = None,
      pd_symptoms_analysis =
        Some \<lparr>urgency_score = Some urgency, estimated_consultation_mins = Some consult\<rparr>,
      pd_location = None,
      pd_travel_data = Some \<lparr>traffic_duration_mins = Some travel\<rparr>,
      pd_booking_time = None\<rparr>"

definition patient_A :: patient_data where "patient_A = booking 1 ''A'' 2 25 12"
definition patient_B :: patient_data where "patient_B = booking 2 ''B'' 9 10 30"
definition patient_C :: patient_data where "patient_C = booking 3 ''C'' 5 15 15"

text \<open>A second CRITICAL patient, with a higher score than B, and a PRIORITY patient.\<close>

definition patient_D :: patient_data where "patient_D = booking 4 ''D'' 9 15 30"
definition patient_P :: patient_data where "patient_P = booking 5 ''P'' 6 5 10"

definition enq :: "patient_data \<Rightarrow> op" where
  "enq pd = Enqueue pd ''10:00'' ''10:00''"

text \<open>The tokens that \<open>n\<close> successive \<^verbatim>\<open>dequeue_next_patient\<close> calls return.\<close>

fun dequeue_tokens :: "nat \<Rightarrow> scheduler \<Rightarrow> int list" where
  "dequeue_tokens 0 s = []"
| "dequeue_tokens (Suc n) s =
     (case dequeue_next_patient s of
        (Inr (Some p), s') \<Rightarrow> token_number p # dequeue_tokens n s'
      | (_, s') \<Rightarrow> [])"

text \<open>The score and the tier of the node that \<^verbatim>\<open>enqueue_patient\<close> returns.\<close>

definition enqueued_score :: "patient_data \<Rightarrow> scheduler \<Rightarrow> real option" where
  "enqueued_score pd s =
     (case fst (enqueue_patient pd ''10:00'' ''10:00'' s) of
        Inr p \<Rightarrow> Some (priority_score p) | Inl e \<Rightarrow> None)"

definition enqueued_level :: "patient_data \<Rightarrow> scheduler \<Rightarrow> EmergencyLevel option" where
  "enqueued_level pd s =
     (case fst (enqueue_patient pd ''10:00'' ''10:00'' s) of
        Inr p \<Rightarrow> Some (emergency_level p) | Inl e \<Rightarrow> None)"

text \<open>The tokens of the nodes of a queue, in the order of the list.\<close>

definition queue_tokens :: "scheduler \<Rightarrow> nat list \<Rightarrow> int list" where
  "queue_tokens s q = map (\<lambda>r. token_number (objs s ! r)) q"

text \<open>A location update that brings the travel time of a patient down to three minutes.\<close>

definition closer :: updates_dict where
  "closer = \<lparr>upd_travel_eta_mins = Some 3, upd_actual_arrival = None,
     upd_arrival_probability = None\<rparr>"

section \<open>The travel time estimator (tools/astar\_eta\_calculator.py)\<close>

type_synonym coord = "real \<times> real"

record AStarNode =
  f_score :: real
  g_score :: real
  h_score :: real
  lat :: real
  lon :: real
  parent :: "coord option"

subsection \<open>RoadNetworkGraph\<close>

text \<open>
  The adjacency dictionary, from a node to the list of its edges (neighbour latitude,
  neighbour longitude, base minutes), and the traffic patterns (start hour, end hour,
  multiplier) in the order of the dictionary.
\<close>

type_synonym road_graph = "(coord \<times> (real \<times> real \<times> real) list) list"

definition traffic_patterns :: "(int \<times> int \<times> real) list" where
  "traffic_patterns = [(8, 11, 3 / 2), (17, 20, 8 / 5), (12, 14, 13 / 10), (22, 6, 4 / 5)]"

definition add_edge :: "real \<Rightarrow> real \<Rightarrow> real \<Rightarrow> real \<Rightarrow> real \<Rightarrow> road_graph \<Rightarrow> road_graph" where
  "add_edge from_lat from_lon to_lat to_lon base_time_mins graph =
     (let from_node = (from_lat, from_lon); to_node = (to_lat, to_lon);
          g1 = (if map_of graph from_node = None then graph @ [(from_node, [])] else graph);
          g2 = (if map_of g1 to_node = None then g1 @ [(to_node, [])] else g1);
          g3 = AList.update from_node
                 (get_default (map_of g2 from_node) [] @ [(to_lat, to_lon, base_time_mins)]) g2
      in AList.update to_node
           (get_default (map_of g3 to_node) [] @ [(from_lat, from_lon, base_time_mins)]) g3)"

definition get_neighbors :: "road_graph \<Rightarrow> real \<Rightarrow> real \<Rightarrow> (real \<times> real \<times> real) list" where
  "get_neighbors graph la lo = get_default (map_of graph (la, lo)) []"

fun traffic_multiplier_loop :: "(int \<times> int \<times> real) list \<Rightarrow> int \<Rightarrow> real" where
  "traffic_multiplier_loop [] current_hour = 1"
| "traffic_multiplier_loop ((start_hour, end_hour, multiplier) # patterns) current_hour =
     (if start_hour \<le> end_hour then
        (if start_hour \<le> current_hour \<and> current_hour < end_hour then multiplier
         else traffic_multiplier_loop patterns current_hour)
      else
        (if start_hour \<le> current_hour \<or> current_hour < end_hour then multiplier
         else traffic_multiplier_loop patterns current_hour))"

definition get_traffic_multiplier :: "int \<Rightarrow> real" where
  "get_traffic_multiplier current_hour = traffic_multiplier_loop traffic_patterns current_hour"

subsection \<open>The demo graph\<close>

definition bandra :: coord where "bandra = (190596 / 10000, 728295 / 10000)"
definition andheri :: coord where "andheri = (191136 / 10000, 728697 / 10000)"
definition worli :: coord where "worli = (190176 / 10000, 728120 / 10000)"
definition dadar :: coord where "dadar = (190186 / 10000, 728481 / 10000)"
definition churchgate :: coord where "churchgate = (189322 / 10000, 728264 / 10000)"
definition lower_parel :: coord where "lower_parel = (190008 / 10000, 728289 / 10000)"
definition kurla :: coord where "kurla = (190728 / 10000, 728826 / 10000)"

definition mumbai_edges :: "(coord \<times> coord \<times> real) list" where
  "mumbai_edges =
     [(bandra, andheri, 15), (bandra, worli, 12), (bandra, dadar, 10),
      (worli, lower_parel, 8), (worli, churchgate, 15), (dadar, lower_parel, 10),
      (dadar, kurla, 12), (andheri, kurla, 10), (lower_parel, churchgate, 12)]"

definition init_mumbai_graph :: road_graph where
  "init_mumbai_graph =
     fold (\<lambda>(loc1, loc2, time). add_edge (fst loc1) (snd loc1) (fst loc2) (snd loc2) time)
       mumbai_edges []"

subsection \<open>Distance and heuristic\<close>

definition radians :: "real \<Rightarrow> real" where
  "radians x = x * pi / 180"

text \<open>\<^verbatim>\<open>math.atan2(y, x)\<close>.\<close>

definition atan2 :: "real \<Rightarrow> real \<Rightarrow> real" where
  "atan2 y x =
     (if 0 < x then arctan (y / x)
      else if x < 0 then (if 0 \<le> y then arctan (y / x) + pi else arctan (y / x) - pi)
      else if 0 < y then pi / 2 else if y < 0 then - pi / 2 else 0)"

text \<open>
  The distances and times of this section are real numbers, computed without the rounding
  of double precision.

  The term \<open>a\<close> of the haversine formula. Over the reals it lies between 0 and 1 for all
  arguments (lemma \<open>haversine_a_range\<close>), so that neither square root of
  \<^verbatim>\<open>haversine_distance\<close> is taken of a negative number. At antipodal points it is exactly
  1 (lemma \<open>haversine_a_antipodal\<close>); the double that the program computes for it there
  can be 1.0000000000000002, and \<^verbatim>\<open>math.sqrt(1 - a)\<close> then raises ValueError, which the
  real numbers of this section do not show.
\<close>

definition haversine_a :: "real \<Rightarrow> real \<Rightarrow> real \<Rightarrow> real \<Rightarrow> real" where
  "haversine_a lat1 lon1 lat2 lon2 =
     (sin (radians (lat2 - lat1) / 2))\<^sup>2 +
     cos (radians lat1) * cos (radians lat2) * (sin (radians (lon2 - lon1) / 2))\<^sup>2"

definition haversine_distance :: "real \<Rightarrow> real \<Rightarrow> real \<Rightarrow> real \<Rightarrow> real" where
  "haversine_distance lat1 lon1 lat2 lon2 =
     6371 * (2 * atan2 (sqrt (haversine_a lat1 lon1 lat2 lon2))
                       (sqrt (1 - haversine_a lat1 lon1 lat2 lon2)))"

definition distance_to_time_heuristic :: "real \<Rightarrow> real" where
  "distance_to_time_heuristic distance_km = (distance_km / 30) * 60"

subsection \<open>The search\<close>

record eta_result =
  path_found :: bool
  travel_time_mins :: real
  distance_km :: real
  path :: "coord list"
  eta_method :: string
  traffic_multiplier :: "real option"
  iterations :: "nat option"

text \<open>
  \<^verbatim>\<open>_reconstruct_path\<close>: the loop follows \<open>came_from\<close> for as long as the current node has
  a parent there; \<open>None\<close> stands for a loop that does not end.
\<close>

partial_function (option) reconstruct_loop ::
    "(coord \<times> coord option) list \<Rightarrow> coord \<Rightarrow> coord list \<Rightarrow> coord list option" where
  "reconstruct_loop came_from current walked =
     (case map_of came_from current of
        Some (Some previous) \<Rightarrow> reconstruct_loop came_from previous (walked @ [previous])
      | _ \<Rightarrow> Some walked)"

definition reconstruct_path :: "(coord \<times> coord option) list \<Rightarrow> coord \<Rightarrow> coord list option" where
  "reconstruct_path came_from current =
     map_option rev (reconstruct_loop came_from current [current])"

text \<open>
  The loop over the neighbours of the expanded node. It carries the frontier, the
  \<open>g\<close>-scores and \<open>came_from\<close>.
\<close>

type_synonym search_state =
  "AStarNode list \<times> (coord \<times> real) list \<times> (coord \<times> coord option) list"

fun expand_neighbors ::
    "real \<Rightarrow> AStarNode \<Rightarrow> coord \<Rightarrow> coord list \<Rightarrow> (real \<times> real \<times> real) list
       \<Rightarrow> search_state \<Rightarrow> search_state" where
  "expand_neighbors multiplier current goal visited [] st = st"
| "expand_neighbors multiplier current goal visited ((neighbor_lat, neighbor_lon, base_time) # rest)
     (frontier, g_scores, came_from) =
     (if (neighbor_lat, neighbor_lon) \<in> set visited
      then expand_neighbors multiplier current goal visited rest (frontier, g_scores, came_from)
      else if (case map_of g_scores (neighbor_lat, neighbor_lon) of
                 None \<Rightarrow> True
               | Some g \<Rightarrow> g_score current + base_time * multiplier < g)
      then expand_neighbors multiplier current goal visited rest
             (heappush f_score frontier
                \<lparr>f_score = g_score current + base_time * multiplier +
                   distance_to_time_heuristic
                     (haversine_distance neighbor_lat neighbor_lon (fst goal) (snd goal)),
                 g_score = g_score current + base_time * multiplier,
                 h_score = distance_to_time_heuristic
                     (haversine_distance neighbor_lat neighbor_lon (fst goal) (snd goal)),
                 lat = neighbor_lat, lon = neighbor_lon, parent = None\<rparr>,
              AList.update (neighbor_lat, neighbor_lon)
                (g_score current + base_time * multiplier) g_scores,
              AList.update (neighbor_lat, neighbor_lon) (Some (lat current, lon current))
                came_from)
      else expand_neighbors multiplier current goal visited rest (frontier, g_scores, came_from))"

definition max_iterations :: nat where "max_iterations = 1000"

text \<open>
  The main loop of \<^verbatim>\<open>_astar_search\<close>. The result is \<open>None\<close> when the path reconstruction
  does not end, \<open>Some None\<close> for \<^verbatim>\<open>{"path_found": False}\<close> and \<open>Some (Some r)\<close> for a
  found path.
\<close>

function astar_loop ::
    "road_graph \<Rightarrow> real \<Rightarrow> coord \<Rightarrow> coord \<Rightarrow> AStarNode list \<Rightarrow> coord list
       \<Rightarrow> (coord \<times> real) list \<Rightarrow> (coord \<times> coord option) list \<Rightarrow> nat
       \<Rightarrow> eta_result option option" where
  "astar_loop graph multiplier start goal frontier visited g_scores came_from iters =
     (if frontier \<noteq> [] \<and> iters < max_iterations then
        (case heappop f_score frontier of
           Inl e \<Rightarrow> Some None
         | Inr (current, frontier') \<Rightarrow>
             (if haversine_distance (lat current) (lon current) (fst goal) (snd goal) < 1 / 2
              then
                (case reconstruct_path came_from (lat current, lon current) of
                   None \<Rightarrow> None
                 | Some p \<Rightarrow>
                     Some (Some
                       \<lparr>path_found = True, travel_time_mins = g_score current,
                        distance_km = haversine_distance (fst start) (snd start) (fst goal) (snd goal),
                        path = p, eta_method = ''astar_graph'',
                        traffic_multiplier = Some multiplier,
                        iterations = Some (iters + 1)\<rparr>))
              else if (lat current, lon current) \<in> set visited
              then astar_loop graph multiplier start goal frontier' visited g_scores came_from
                     (iters + 1)
              else
                (case expand_neighbors multiplier current goal ((lat current, lon current) # visited)
                        (get_neighbors graph (lat current) (lon current))
                        (frontier', g_scores, came_from) of
                   (frontier'', g_scores', came_from') \<Rightarrow>
                     astar_loop graph multiplier start goal frontier''
                       ((lat current, lon current) # visited) g_scores' came_from' (iters + 1))))
      else Some None)"
  by pat_completeness auto
termination
  by (relation "measure (\<lambda>(graph, multiplier, start, goal, frontier, visited, g_scores,
        came_from, iters). max_iterations - iters)") auto

declare astar_loop.simps [simp del]

definition astar_search ::
    "road_graph \<Rightarrow> int \<Rightarrow> real \<Rightarrow> real \<Rightarrow> real \<Rightarrow> real \<Rightarrow> eta_result option option" where
  "astar_search graph current_hour start_lat start_lon goal_lat goal_lon =
     (if map_of graph (start_lat, start_lon) = None \<and> map_of graph (goal_lat, goal_lon) = None
      then Some None
      else astar_loop graph (get_traffic_multiplier current_hour)
             (start_lat, start_lon) (goal_lat, goal_lon)
             (heappush f_score []
                \<lparr>f_score = distance_to_time_heuristic
                     (haversine_distance start_lat start_lon goal_lat goal_lon),
                 g_score = 0,
                 h_score = distance_to_time_heuristic
                     (haversine_distance start_lat start_lon goal_lat goal_lon),
                 lat = start_lat, lon = start_lon, parent = None\<rparr>)
             [] [((start_lat, start_lon), 0)] [((start_lat, start_lon), None)] 0)"

subsection \<open>calculate\_eta and its fallbacks\<close>

text \<open>
  The reply of the maps service, reduced to the keys that are read. The service is a
  parameter: \<open>Inl\<close> stands for a call that raises, whatever the exception.
\<close>

record api_dict =
  duration_minutes :: "real option"
  api_distance_km :: "real option"

type_synonym maps_service = "real \<Rightarrow> real \<Rightarrow> real \<Rightarrow> real \<Rightarrow> py_error + api_dict"

definition fallback_to_api :: "maps_service \<Rightarrow> real \<Rightarrow> real \<Rightarrow> real \<Rightarrow> real \<Rightarrow> eta_result" where
  "fallback_to_api calculate_distance_time from_lat from_lon to_lat to_lon =
     (case calculate_distance_time from_lat from_lon to_lat to_lon of
        Inr result \<Rightarrow>
          \<lparr>path_found = True,
           travel_time_mins = get_default (duration_minutes result) 20,
           distance_km = get_default (api_distance_km result) 10,
           path = [], eta_method = ''free_maps_api'',
           traffic_multiplier = None, iterations = None\<rparr>
      | Inl e \<Rightarrow>
          \<lparr>path_found = True,
           travel_time_mins =
             distance_to_time_heuristic (haversine_distance from_lat from_lon to_lat to_lon),
           distance_km = haversine_distance from_lat from_lon to_lat to_lon,
           path = [], eta_method = ''haversine_estimate'',
           traffic_multiplier = None, iterations = None\<rparr>)"

text \<open>\<open>None\<close> stands for a call that does not return.\<close>

definition calculate_eta ::
    "road_graph \<Rightarrow> maps_service \<Rightarrow> int \<Rightarrow> real \<Rightarrow> real \<Rightarrow> real \<Rightarrow> real \<Rightarrow> eta_result option" where
  "calculate_eta graph calculate_distance_time current_hour from_lat from_lon to_lat to_lon =
     (case astar_search graph current_hour from_lat from_lon to_lat to_lon of
        None \<Rightarrow> None
      | Some (Some result) \<Rightarrow> Some result
      | Some None \<Rightarrow>
          Some (fallback_to_api calculate_distance_time from_lat from_lon to_lat to_lon))"

text \<open>The cost of a walk through the graph under a traffic multiplier, if it is one.\<close>

fun walk_cost :: "road_graph \<Rightarrow> real \<Rightarrow> coord list \<Rightarrow> real option" where
  "walk_cost graph multiplier (a # b # rest) =
     (case find (\<lambda>(la, lo, t). (la, lo) = b) (get_neighbors graph (fst a) (snd a)) of
        None \<Rightarrow> None
      | Some (la, lo, t) \<Rightarrow> map_option (\<lambda>c. t * multiplier + c) (walk_cost graph multiplier (b # rest)))"
| "walk_cost graph multiplier _ = Some 0"

text \<open>
  The visit rank of a node: the number of nodes visited up to and including it, or one
  more than the number of visited nodes for a node not visited yet.
\<close>

definition visit_rank :: "coord list \<Rightarrow> coord \<Rightarrow> nat" where
  "visit_rank visited n =
     (if n \<in> set visited then length (dropWhile (\<lambda>v. v \<noteq> n) visited)
      else Suc (length visited))"

definition came_from_ok :: "coord list \<Rightarrow> (coord \<times> coord option) list \<Rightarrow> bool" where
  "came_from_ok visited came_from \<longleftrightarrow>
     (\<forall>n p. map_of came_from n = Some (Some p) \<longrightarrow>
        p \<in> set visited \<and> visit_rank visited p < visit_rank visited n)"

subsection \<open>Rational enclosures of the haversine term\<close>

text \<open>
  Bounds of a positive angle in radians from \<open>3.1 < pi < 3.2\<close>, of the squared sine of
  half of a small angle, and of the cosine of a latitude; the two bounds of the haversine
  term that they give.
\<close>

definition rad_lo :: "real \<Rightarrow> real" where "rad_lo x = x * (31 / 10) / 180"
definition rad_hi :: "real \<Rightarrow> real" where "rad_hi x = x * (32 / 10) / 180"

definition sin2_lo :: "real \<Rightarrow> real" where
  "sin2_lo d = (rad_lo d / 2 - (rad_hi d / 2) ^ 3 / 6)\<^sup>2"

definition sin2_hi :: "real \<Rightarrow> real" where
  "sin2_hi d = (rad_hi d / 2)\<^sup>2"

definition cos_lo :: "real \<Rightarrow> real" where
  "cos_lo x = 1 - (rad_hi x)\<^sup>2 / 2"

definition cos_hi :: "real \<Rightarrow> real" where
  "cos_hi x = 1 - (rad_lo x)\<^sup>2 / 2 + (rad_hi x) ^ 4 / 24"

definition haversine_a_lo :: "real \<Rightarrow> real \<Rightarrow> real \<Rightarrow> real \<Rightarrow> real" where
  "haversine_a_lo lat1 lon1 lat2 lon2 =
     sin2_lo \<bar>lat2 - lat1\<bar> + cos_lo lat1 * cos_lo lat2 * sin2_lo \<bar>lon2 - lon1\<bar>"

definition haversine_a_hi :: "real \<Rightarrow> real \<Rightarrow> real \<Rightarrow> real \<Rightarrow> real" where
  "haversine_a_hi lat1 lon1 lat2 lon2 =
     sin2_hi \<bar>lat2 - lat1\<bar> + cos_hi lat1 * cos_hi lat2 * sin2_hi \<bar>lon2 - lon1\<bar>"

text \<open>The conditions under which the two bounds enclose the haversine term.\<close>

definition enclosure_ok :: "real \<Rightarrow> real \<Rightarrow> real \<Rightarrow> real \<Rightarrow> bool" where
  "enclosure_ok lat1 lon1 lat2 lon2 \<longleftrightarrow>
     0 \<le> lat1 \<and> lat1 \<le> 80 \<and> 0 \<le> lat2 \<and> lat2 \<le> 80 \<and>
     (rad_hi \<bar>lat2 - lat1\<bar> / 2) ^ 3 / 6 \<le> rad_lo \<bar>lat2 - lat1\<bar> / 2 \<and>
     (rad_hi \<bar>lon2 - lon1\<bar> / 2) ^ 3 / 6 \<le> rad_lo \<bar>lon2 - lon1\<bar> / 2 \<and>
     0 \<le> cos_lo lat1 \<and> 0 \<le> cos_lo lat2"

section \<open>Rounding to the nearest double\<close>

lemma round_half_even_cases:
  "round_half_even y = \<lfloor>y\<rfloor> \<or> round_half_even y = \<lfloor>y\<rfloor> + 1"
  by (simp add: round_half_even_def Let_def)

lemma round_half_even_mono:
  assumes "y1 \<le> y2"
  shows "round_half_even y1 \<le> round_half_even y2"
proof (cases "\<lfloor>y1\<rfloor> = \<lfloor>y2\<rfloor>")
  case True
  have "y1 - of_int \<lfloor>y1\<rfloor> \<le> y2 - of_int \<lfloor>y2\<rfloor>" using assms True by simp
  then show ?thesis using True by (auto simp: round_half_even_def Let_def)
next
  case False
  have "\<lfloor>y1\<rfloor> \<le> \<lfloor>y2\<rfloor>" using assms by (rule floor_mono)
  then have "\<lfloor>y1\<rfloor> + 1 \<le> \<lfloor>y2\<rfloor>" using False by simp
  moreover have "round_half_even y1 \<le> \<lfloor>y1\<rfloor> + 1" using round_half_even_cases [of y1] by auto
  moreover have "\<lfloor>y2\<rfloor> \<le> round_half_even y2" using round_half_even_cases [of y2] by auto
  ultimately show ?thesis by linarith
qed

lemma round_half_even_of_int: "round_half_even (of_int n) = n"
  by (simp add: round_half_even_def)

lemma round_half_even_error: "\<bar>of_int (round_half_even y) - y\<bar> \<le> 1 / 2"
proof -
  have "of_int \<lfloor>y\<rfloor> \<le> y" "y < of_int \<lfloor>y\<rfloor> + 1" by linarith+
  then show ?thesis by (auto simp: round_half_even_def Let_def abs_le_iff)
qed

lemma round_half_even_uminus: "round_half_even (- y) = - round_half_even y"
proof (cases "y = of_int \<lfloor>y\<rfloor>")
  case True
  then obtain n where "y = of_int n" by blast
  then show ?thesis by (simp add: round_half_even_of_int flip: of_int_minus)
next
  case False
  then have f: "\<lfloor>- y\<rfloor> = - \<lfloor>y\<rfloor> - 1" by linarith
  have lt: "of_int \<lfloor>y\<rfloor> < y" using False by linarith
  show ?thesis
    unfolding round_half_even_def Let_def f using lt by (auto simp: algebra_simps)
qed



lemma pow2_pos [simp]: "0 < pow2 k"
  by (simp add: pow2_def)

lemma pow2_nonneg [simp]: "0 \<le> pow2 k"
  by (simp add: pow2_def)

lemma pow2_neq0 [simp]: "pow2 k \<noteq> 0"
  by (simp add: pow2_def)

lemma pow2_less_iff [simp]: "pow2 j < pow2 k \<longleftrightarrow> j < k"
  by (simp add: pow2_def)

lemma pow2_le_iff [simp]: "pow2 j \<le> pow2 k \<longleftrightarrow> j \<le> k"
  by (simp add: pow2_def)

lemma pow2_add: "pow2 (j + k) = pow2 j * pow2 k"
  by (simp add: pow2_def powr_add)

lemma pow2_diff: "pow2 (j - k) = pow2 j / pow2 k"
  by (simp add: pow2_def powr_diff)

lemma pow2_nat: "pow2 (int n) = 2 ^ n"
  by (simp add: pow2_def powr_realpow)

lemma pow2_lower_pos: "pow2 k \<le> a \<Longrightarrow> 0 < a"
  using pow2_pos [of k] by linarith

lemma floor_log2_iff: "0 < a \<Longrightarrow> \<lfloor>log 2 a\<rfloor> = k \<longleftrightarrow> pow2 k \<le> a \<and> a < pow2 (k + 1)"
  using floor_log_eq_powr_iff [of a 2 k] by (simp add: pow2_def)

lemma double_exponent_range: "- 1022 \<le> double_exponent a" "double_exponent a \<le> 1023"
proof -
  have "- 1022 \<le> \<lfloor>log 2 a\<rfloor> \<and> \<lfloor>log 2 a\<rfloor> \<le> 1023"
    if lo: "pow2 (- 1022) \<le> a" and hi: "a < pow2 1023"
  proof -
    have pos: "0 < a" using lo by (rule pow2_lower_pos)
    have k: "pow2 \<lfloor>log 2 a\<rfloor> \<le> a" "a < pow2 (\<lfloor>log 2 a\<rfloor> + 1)"
      using floor_log2_iff [OF pos, of "\<lfloor>log 2 a\<rfloor>"] by simp_all
    have "pow2 \<lfloor>log 2 a\<rfloor> < pow2 1023" using k(1) hi by linarith
    then have "\<lfloor>log 2 a\<rfloor> < 1023" by simp
    moreover have "pow2 (- 1022) < pow2 (\<lfloor>log 2 a\<rfloor> + 1)" using k(2) lo by linarith
    then have "- 1022 < \<lfloor>log 2 a\<rfloor> + 1" by (simp only: pow2_less_iff)
    ultimately show ?thesis by linarith
  qed
  then show "- 1022 \<le> double_exponent a" "double_exponent a \<le> 1023"
    by (auto simp: double_exponent_def not_less not_le)
qed

lemma double_exponent_lower:
  assumes "pow2 (- 1022) \<le> a"
  shows "pow2 (double_exponent a) \<le> a"
proof (cases "pow2 1023 \<le> a")
  case True
  then show ?thesis using assms by (simp add: double_exponent_def not_less [symmetric])
next
  case False
  have pos: "0 < a" using assms by (rule pow2_lower_pos)
  have "pow2 \<lfloor>log 2 a\<rfloor> \<le> a" using floor_log2_iff [OF pos, of "\<lfloor>log 2 a\<rfloor>"] by simp
  then show ?thesis using assms False by (simp add: double_exponent_def not_less [symmetric])
qed

lemma double_exponent_upper:
  assumes "a < pow2 1023"
  shows "a < pow2 (double_exponent a + 1)"
proof (cases "a < pow2 (- 1022)")
  case True
  have "pow2 (- 1022) < pow2 (- 1021)" by simp
  then have "a < pow2 (- 1021)" using True by linarith
  then show ?thesis using True by (simp add: double_exponent_def)
next
  case False
  then have pos: "0 < a" using pow2_lower_pos [of "- 1022" a] by simp
  have "a < pow2 (\<lfloor>log 2 a\<rfloor> + 1)" using floor_log2_iff [OF pos, of "\<lfloor>log 2 a\<rfloor>"] by simp
  then show ?thesis using assms False by (simp add: double_exponent_def)
qed

lemma double_exponent_eq:
  assumes lo: "pow2 e \<le> a" and hi: "a < pow2 (e + 1)"
    and e: "- 1022 \<le> e" "e \<le> 1023"
  shows "double_exponent a = e"
proof -
  have "pow2 (- 1022) \<le> pow2 e" using e by simp
  then have a: "pow2 (- 1022) \<le> a" using lo by linarith
  then have pos: "0 < a" by (rule pow2_lower_pos)
  show ?thesis
  proof (cases "pow2 1023 \<le> a")
    case True
    then have "pow2 1023 < pow2 (e + 1)" using hi by linarith
    then have "1023 < e + 1" by (simp only: pow2_less_iff)
    then have "e = 1023" using e by linarith
    then show ?thesis using True a by (simp add: double_exponent_def not_less [symmetric])
  next
    case False
    have "\<lfloor>log 2 a\<rfloor> = e" using floor_log2_iff [OF pos, of e] lo hi by simp
    then show ?thesis using False a by (simp add: double_exponent_def not_less [symmetric])
  qed
qed

lemma double_exponent_mono:
  assumes "a \<le> b"
  shows "double_exponent a \<le> double_exponent b"
proof (cases "a < pow2 (- 1022)")
  case True
  then show ?thesis using double_exponent_range(1) [of b] by (simp add: double_exponent_def)
next
  case a: False
  then have pos: "0 < a" using pow2_lower_pos [of "- 1022" a] by simp
  show ?thesis
  proof (cases "pow2 1023 \<le> b")
    case True
    then show ?thesis using double_exponent_range(2) [of a] a assms
      by (simp add: double_exponent_def)
  next
    case False
    have "log 2 a \<le> log 2 b" using pos assms by (intro log_mono) simp_all
    then have "\<lfloor>log 2 a\<rfloor> \<le> \<lfloor>log 2 b\<rfloor>" by (rule floor_mono)
    then show ?thesis using a False assms by (simp add: double_exponent_def)
  qed
qed

lemma spacing_pos [simp]: "0 < spacing a"
  by (simp add: spacing_def)

lemma spacing_mono: "a \<le> b \<Longrightarrow> spacing a \<le> spacing b"
  unfolding spacing_def using double_exponent_mono [of a b] by simp


lemma fl_alt: "fl x = of_int (round_half_even (x / spacing \<bar>x\<bar>)) * spacing \<bar>x\<bar>"
  by (simp add: fl_def nearest_multiple_def)

lemma fl_zero [simp]: "fl 0 = 0"
  by (simp add: fl_alt round_half_even_of_int [of 0, simplified])

lemma fl_uminus: "fl (- x) = - fl x"
  by (simp add: fl_alt round_half_even_uminus)

lemma round_half_even_nonneg: "0 \<le> y \<Longrightarrow> 0 \<le> round_half_even y"
  using round_half_even_mono [of 0 y] round_half_even_of_int [of 0] by simp

lemma fl_nonneg: "0 \<le> x \<Longrightarrow> 0 \<le> fl x"
  unfolding fl_alt
  by (intro mult_nonneg_nonneg) (simp_all add: round_half_even_nonneg less_imp_le)

lemma fl_error_spacing: "\<bar>fl x - x\<bar> \<le> spacing \<bar>x\<bar> / 2"
proof -
  define u where "u = spacing \<bar>x\<bar>"
  have u: "0 < u" by (simp add: u_def)
  have "fl x = of_int (round_half_even (x / u)) * u" by (simp add: fl_alt u_def)
  moreover have "x = x / u * u" using u by simp
  ultimately have "fl x - x = (of_int (round_half_even (x / u)) - x / u) * u"
    by (simp only: left_diff_distrib)
  then have "\<bar>fl x - x\<bar> = \<bar>of_int (round_half_even (x / u)) - x / u\<bar> * u"
    using u by (simp add: abs_mult)
  also have "\<dots> \<le> 1 / 2 * u"
    using round_half_even_error [of "x / u"] u by (intro mult_right_mono) simp_all
  finally show ?thesis by (simp add: u_def)
qed

lemma pow2_52: "pow2 52 = 4503599627370496"
  using pow2_nat [of 52] by simp

lemma pow2_53: "pow2 53 = 9007199254740992"
  using pow2_nat [of 53] by simp

lemma spacing_le:
  assumes "pow2 (- 1022) \<le> a"
  shows "spacing a * 4503599627370496 \<le> a"
proof -
  have "double_exponent a - 52 + 52 = double_exponent a" by simp
  then have "spacing a * pow2 52 = pow2 (double_exponent a)"
    by (simp only: spacing_def pow2_add [symmetric])
  then show ?thesis using double_exponent_lower [OF assms] by (simp add: pow2_52)
qed

lemma spacing_gt:
  assumes "a < pow2 1023"
  shows "a < spacing a * 9007199254740992"
proof -
  have "double_exponent a - 52 + 53 = double_exponent a + 1" by simp
  then have "spacing a * pow2 53 = pow2 (double_exponent a + 1)"
    by (simp only: spacing_def pow2_add [symmetric])
  then show ?thesis using double_exponent_upper [OF assms] by (simp add: pow2_53)
qed

lemma spacing_subnormal: "a < pow2 (- 1022) \<Longrightarrow> spacing a = pow2 (- 1074)"
  by (simp add: spacing_def double_exponent_def)

text \<open>The error of one rounding of a value of magnitude at most \<open>M\<close>.\<close>

lemma pow2_tiny: "pow2 (- 1074) \<le> 1 / 4503599627370496"
proof -
  have "pow2 (- 1074) \<le> pow2 (- 52)" by simp
  also have "\<dots> = 1 / pow2 52" using pow2_diff [of 0 52] by (simp add: pow2_def)
  finally show ?thesis by (simp add: pow2_52)
qed

lemma fl_error:
  assumes "\<bar>x\<bar> \<le> M" and "1 \<le> M"
  shows "\<bar>fl x - x\<bar> \<le> M / 9007199254740992"
proof (cases "\<bar>x\<bar> < pow2 (- 1022)")
  case True
  have "spacing \<bar>x\<bar> \<le> 1 / 4503599627370496"
    using spacing_subnormal [OF True] pow2_tiny by simp
  then show ?thesis using fl_error_spacing [of x] assms(2) by simp
next
  case False
  then have "spacing \<bar>x\<bar> * 4503599627370496 \<le> \<bar>x\<bar>" by (intro spacing_le) simp
  then show ?thesis using fl_error_spacing [of x] assms(1) by simp
qed

lemma fl_fixed:
  assumes "x = of_int m * spacing \<bar>x\<bar>"
  shows "fl x = x"
proof -
  define u where "u = spacing \<bar>x\<bar>"
  have "0 < u" by (simp add: u_def)
  then have u: "u \<noteq> 0" by simp
  have x: "x = of_int m * u" using assms by (simp add: u_def)
  have "x / u = of_int m" unfolding x using u by simp
  then have "fl x = of_int m * u" by (simp add: fl_alt u_def [symmetric] round_half_even_of_int)
  then show ?thesis using x by simp
qed


lemma fl_mono_nonneg:
  assumes x: "0 \<le> x" and xy: "x \<le> y"
  shows "fl x \<le> fl y"
proof -
  define ex where "ex = double_exponent x"
  define ey where "ey = double_exponent y"
  have ux: "spacing \<bar>x\<bar> = pow2 (ex - 52)" using x by (simp add: spacing_def ex_def)
  have uy: "spacing \<bar>y\<bar> = pow2 (ey - 52)" using x xy by (simp add: spacing_def ey_def)
  have le: "ex \<le> ey" unfolding ex_def ey_def using xy by (rule double_exponent_mono)
  show ?thesis
  proof (cases "ex = ey")
    case True
    have "x / pow2 (ey - 52) \<le> y / pow2 (ey - 52)" using xy by (intro divide_right_mono) simp_all
    then have "round_half_even (x / pow2 (ey - 52)) \<le> round_half_even (y / pow2 (ey - 52))"
      by (rule round_half_even_mono)
    then show ?thesis unfolding fl_alt ux uy True by (simp add: mult_right_mono)
  next
    case False
    then have lt: "ex < ey" using le by simp
    have ey: "- 1022 < ey" "ey \<le> 1023"
      using lt double_exponent_range [of x] double_exponent_range [of y]
      by (simp_all add: ex_def ey_def)
    have ex: "ex < 1023" using lt ey by simp
    have y_normal: "pow2 (- 1022) \<le> y"
    proof (rule ccontr)
      assume "\<not> pow2 (- 1022) \<le> y"
      then have "ey = - 1022" by (simp add: ey_def double_exponent_def)
      then show False using ey by simp
    qed
    have B_le_y: "pow2 ey \<le> y" unfolding ey_def using y_normal by (rule double_exponent_lower)
    have x_small: "x < pow2 1023"
    proof (rule ccontr)
      assume big: "\<not> x < pow2 1023"
      have "pow2 (- 1022) \<le> pow2 1023" by simp
      then have "\<not> x < pow2 (- 1022)" using big by linarith
      then have "ex = 1023" using big by (simp add: ex_def double_exponent_def)
      then show False using ex by simp
    qed
    have x_lt: "x < pow2 (ex + 1)" unfolding ex_def using x_small by (rule double_exponent_upper)
    have "pow2 (ex + 1) \<le> pow2 ey" using lt by simp
    then have x_le_B: "x \<le> pow2 ey" using x_lt by linarith
    define n where "n = nat (ey - ex + 52)"
    have n: "int n = ey - ex + 52" using lt by (simp add: n_def)
    have "pow2 ey = pow2 (int n + (ex - 52))" unfolding n by simp
    then have B_x: "pow2 ey = of_int (2 ^ n) * pow2 (ex - 52)"
      by (simp add: pow2_add pow2_nat)
    have "pow2 ey = pow2 (52 + (ey - 52))" by simp
    then have B_y: "pow2 ey = of_int (2 ^ 52) * pow2 (ey - 52)"
      using pow2_nat [of 52] by (simp only: pow2_add) simp
    have "x / pow2 (ex - 52) \<le> pow2 ey / pow2 (ex - 52)" using x_le_B by (intro divide_right_mono) simp_all
    also have "\<dots> = of_int (2 ^ n)" unfolding B_x by simp
    finally have "round_half_even (x / pow2 (ex - 52)) \<le> round_half_even (of_int (2 ^ n))"
      by (rule round_half_even_mono)
    then have "round_half_even (x / pow2 (ex - 52)) \<le> 2 ^ n"
      by (simp only: round_half_even_of_int)
    then have "of_int (round_half_even (x / pow2 (ex - 52))) \<le> (of_int (2 ^ n) :: real)"
      by (simp only: of_int_le_iff)
    then have "fl x \<le> of_int (2 ^ n) * pow2 (ex - 52)"
      unfolding fl_alt ux by (intro mult_right_mono) simp_all
    then have left: "fl x \<le> pow2 ey" by (simp only: B_x)
    have "of_int (2 ^ 52) = pow2 ey / pow2 (ey - 52)" unfolding B_y by simp
    also have "\<dots> \<le> y / pow2 (ey - 52)" using B_le_y by (intro divide_right_mono) simp_all
    finally have "round_half_even (of_int (2 ^ 52)) \<le> round_half_even (y / pow2 (ey - 52))"
      by (rule round_half_even_mono)
    then have "2 ^ 52 \<le> round_half_even (y / pow2 (ey - 52))"
      by (simp only: round_half_even_of_int)
    then have "(of_int (2 ^ 52) :: real) \<le> of_int (round_half_even (y / pow2 (ey - 52)))"
      by (simp only: of_int_le_iff)
    then have "of_int (2 ^ 52) * pow2 (ey - 52) \<le> fl y"
      unfolding fl_alt uy by (intro mult_right_mono) simp_all
    then have right: "pow2 ey \<le> fl y" by (simp only: B_y)
    show ?thesis using left right by linarith
  qed
qed

lemma fl_mono:
  assumes "x \<le> y"
  shows "fl x \<le> fl y"
proof (cases "0 \<le> x")
  case True
  then show ?thesis using assms by (rule fl_mono_nonneg)
next
  case x: False
  show ?thesis
  proof (cases "0 \<le> y")
    case True
    have "0 \<le> fl (- x)" using x by (intro fl_nonneg) simp
    then have "fl x \<le> 0" by (simp add: fl_uminus)
    then show ?thesis using fl_nonneg [OF True] by linarith
  next
    case False
    then have "fl (- y) \<le> fl (- x)" using assms by (intro fl_mono_nonneg) simp_all
    then show ?thesis by (simp add: fl_uminus)
  qed
qed


lemma double_exponent_pow2:
  assumes "- 1022 \<le> e" "e \<le> 1023"
  shows "double_exponent (pow2 e) = e"
  by (rule double_exponent_eq) (use assms in simp_all)

lemma fl_binade_lower:
  assumes x: "pow2 (- 1022) \<le> x"
  shows "pow2 (double_exponent x) \<le> fl x"
proof -
  define e where "e = double_exponent x"
  have pos: "0 \<le> x" using pow2_lower_pos [OF x] by simp
  have u: "spacing \<bar>x\<bar> = pow2 (e - 52)" using pos by (simp add: spacing_def e_def)
  have B: "pow2 e \<le> x" unfolding e_def using x by (rule double_exponent_lower)
  have "pow2 e = pow2 (52 + (e - 52))" by simp
  then have B_u: "pow2 e = of_int (2 ^ 52) * pow2 (e - 52)"
    using pow2_nat [of 52] by (simp only: pow2_add) simp
  have "of_int (2 ^ 52) = pow2 e / pow2 (e - 52)" unfolding B_u by simp
  also have "\<dots> \<le> x / pow2 (e - 52)" using B by (intro divide_right_mono) simp_all
  finally have "round_half_even (of_int (2 ^ 52)) \<le> round_half_even (x / pow2 (e - 52))"
    by (rule round_half_even_mono)
  then have "2 ^ 52 \<le> round_half_even (x / pow2 (e - 52))"
    by (simp only: round_half_even_of_int)
  then have "(of_int (2 ^ 52) :: real) \<le> of_int (round_half_even (x / pow2 (e - 52)))"
    by (simp only: of_int_le_iff)
  then have "of_int (2 ^ 52) * pow2 (e - 52) \<le> fl x"
    unfolding fl_alt u by (intro mult_right_mono) simp_all
  then have "pow2 e \<le> fl x" by (simp only: B_u [symmetric])
  then show ?thesis by (simp only: e_def)
qed

lemma fl_binade_upper:
  assumes pos: "0 \<le> x" and x: "x < pow2 1023"
  shows "fl x \<le> pow2 (double_exponent x + 1)"
proof -
  define e where "e = double_exponent x"
  have u: "spacing \<bar>x\<bar> = pow2 (e - 52)" using pos by (simp add: spacing_def e_def)
  have B: "x < pow2 (e + 1)" unfolding e_def using x by (rule double_exponent_upper)
  have "e + 1 = 53 + (e - 52)" by simp
  then have "pow2 (e + 1) = pow2 (53 + (e - 52))" by (simp only:)
  then have B_u: "pow2 (e + 1) = of_int (2 ^ 53) * pow2 (e - 52)"
    using pow2_nat [of 53] by (simp only: pow2_add) simp
  have "x / pow2 (e - 52) \<le> pow2 (e + 1) / pow2 (e - 52)"
    using B by (intro divide_right_mono) simp_all
  also have "\<dots> = of_int (2 ^ 53)" unfolding B_u by simp
  finally have "round_half_even (x / pow2 (e - 52)) \<le> round_half_even (of_int (2 ^ 53))"
    by (rule round_half_even_mono)
  then have "round_half_even (x / pow2 (e - 52)) \<le> 2 ^ 53"
    by (simp only: round_half_even_of_int)
  then have "of_int (round_half_even (x / pow2 (e - 52))) \<le> (of_int (2 ^ 53) :: real)"
    by (simp only: of_int_le_iff)
  then have "fl x \<le> of_int (2 ^ 53) * pow2 (e - 52)"
    unfolding fl_alt u by (intro mult_right_mono) simp_all
  then have "fl x \<le> pow2 (e + 1)" by (simp only: B_u [symmetric])
  then show ?thesis by (simp only: e_def)
qed

lemma fl_idem_nonneg:
  assumes pos: "0 \<le> x"
  shows "fl (fl x) = fl x"
proof -
  define e where "e = double_exponent x"
  define e' where "e' = double_exponent (fl x)"
  define m where "m = round_half_even (x / pow2 (e - 52))"
  have u: "spacing \<bar>x\<bar> = pow2 (e - 52)" using pos by (simp add: spacing_def e_def)
  have flx: "fl x = of_int m * pow2 (e - 52)" by (simp add: fl_alt u m_def)
  have fpos: "0 \<le> fl x" using pos by (rule fl_nonneg)
  have u': "spacing \<bar>fl x\<bar> = pow2 (e' - 52)" using fpos by (simp add: spacing_def e'_def)
  have range: "- 1022 \<le> e" "e \<le> 1023" "- 1022 \<le> e'" "e' \<le> 1023"
    using double_exponent_range [of x] double_exponent_range [of "fl x"]
    by (simp_all add: e_def e'_def)
  have lower: "e \<le> e'"
  proof (cases "pow2 (- 1022) \<le> x")
    case True
    have "pow2 e \<le> fl x" unfolding e_def using True by (rule fl_binade_lower)
    then have "double_exponent (pow2 e) \<le> e'" unfolding e'_def by (rule double_exponent_mono)
    then show ?thesis using double_exponent_pow2 [OF range(1,2)] by simp
  next
    case False
    then have "e = - 1022" by (simp add: e_def double_exponent_def)
    then show ?thesis using range by simp
  qed
  show ?thesis
  proof (cases "e' = e")
    case True
    have "fl x = of_int m * spacing \<bar>fl x\<bar>"
      by (rule trans [OF flx]) (simp only: u' True)
    then show ?thesis by (rule fl_fixed)
  next
    case False
    then have lt: "e < e'" using lower by simp
    then have e: "e < 1023" using range by simp
    have small: "x < pow2 1023"
    proof (rule ccontr)
      assume big: "\<not> x < pow2 1023"
      have "pow2 (- 1022) \<le> pow2 1023" by simp
      then have "\<not> x < pow2 (- 1022)" using big by linarith
      then have "e = 1023" using big by (simp add: e_def double_exponent_def)
      then show False using e by simp
    qed
    have up: "fl x \<le> pow2 (e + 1)" unfolding e_def using pos small by (rule fl_binade_upper)
    then have "e' \<le> double_exponent (pow2 (e + 1))"
      unfolding e'_def by (rule double_exponent_mono)
    moreover have "double_exponent (pow2 (e + 1)) = e + 1"
      using range e by (intro double_exponent_pow2) simp_all
    ultimately have e': "e' = e + 1" using lt by simp
    have normal: "pow2 (- 1022) \<le> fl x"
    proof (rule ccontr)
      assume "\<not> pow2 (- 1022) \<le> fl x"
      then have "e' = - 1022" by (simp add: e'_def double_exponent_def)
      then show False using lt range by simp
    qed
    have "pow2 e' \<le> fl x" unfolding e'_def using normal by (rule double_exponent_lower)
    then have eq: "fl x = pow2 (e + 1)" using up e' by simp
    have "e + 1 = 52 + (e' - 52)" using e' by simp
    then have "pow2 (e + 1) = pow2 (52 + (e' - 52))" by (simp only:)
    then have "pow2 (e + 1) = of_int (2 ^ 52) * pow2 (e' - 52)"
      using pow2_nat [of 52] by (simp only: pow2_add) simp
    then have a: "fl x = of_int (2 ^ 52) * pow2 (e' - 52)" using eq by simp
    have "fl x = of_int (2 ^ 52) * spacing \<bar>fl x\<bar>"
      by (rule trans [OF a]) (simp only: u')
    then show ?thesis by (rule fl_fixed)
  qed
qed

lemma fl_idem [simp]: "fl (fl x) = fl x"
proof (cases "0 \<le> x")
  case True
  then show ?thesis by (rule fl_idem_nonneg)
next
  case False
  then have "fl (fl (- x)) = fl (- x)" by (intro fl_idem_nonneg) simp
  then show ?thesis by (simp add: fl_uminus)
qed

lemma fl_binade:
  assumes "pow2 e \<le> \<bar>x\<bar>" "\<bar>x\<bar> < pow2 (e + 1)" "- 1022 \<le> e" "e \<le> 1023"
  shows "fl x = of_int (round_half_even (x / pow2 (e - 52))) * pow2 (e - 52)"
  by (simp add: fl_alt spacing_def double_exponent_eq [OF assms])


text \<open>Whole numbers of magnitude up to \<open>2\<^sup>5\<^sup>3\<close> are doubles.\<close>

lemma fl_of_int:
  assumes "\<bar>n\<bar> \<le> 2 ^ 53"
  shows "fl (of_int n) = of_int n"
proof (cases "n = 0")
  case True
  then show ?thesis by simp
next
  case False
  define a :: real where "a = \<bar>of_int n\<bar>"
  define e where "e = double_exponent a"
  have "1 \<le> \<bar>n\<bar>" using False by simp
  then have "(of_int 1 :: real) \<le> of_int \<bar>n\<bar>" by (simp only: of_int_le_iff)
  then have lo: "pow2 0 \<le> a" by (simp add: a_def pow2_def)
  have "(of_int \<bar>n\<bar> :: real) \<le> of_int (2 ^ 53)" using assms by (simp only: of_int_le_iff)
  then have hi: "a \<le> pow2 53" using pow2_nat [of 53] by (simp add: a_def)
  have "double_exponent (pow2 0) \<le> e" unfolding e_def using lo by (rule double_exponent_mono)
  then have e0: "0 \<le> e" using double_exponent_pow2 [of 0] by simp
  have "e \<le> double_exponent (pow2 53)" unfolding e_def using hi by (rule double_exponent_mono)
  then have e53: "e \<le> 53" using double_exponent_pow2 [of 53] by simp
  have u: "spacing \<bar>of_int n\<bar> = pow2 (e - 52)" by (simp add: spacing_def e_def a_def)
  show ?thesis
  proof (cases "e \<le> 52")
    case True
    define k where "k = nat (52 - e)"
    have k: "int k = 52 - e" using True by (simp add: k_def)
    have "pow2 (int k + (e - 52)) = pow2 0" unfolding k by simp
    moreover have "pow2 0 = 1" by (simp add: pow2_def)
    ultimately have "2 ^ k * pow2 (e - 52) = 1" by (simp only: pow2_add pow2_nat)
    then have "of_int n = of_int n * (2 ^ k * pow2 (e - 52))" by simp
    then have "of_int n = of_int (n * 2 ^ k) * spacing \<bar>of_int n\<bar>" by (simp add: u mult.assoc)
    then show ?thesis by (rule fl_fixed)
  next
    case False
    then have e: "e = 53" using e53 by simp
    have "pow2 (- 1022) \<le> pow2 0" by simp
    then have "pow2 (- 1022) \<le> a" using lo by linarith
    then have "pow2 e \<le> a" unfolding e_def by (rule double_exponent_lower)
    then have "a = pow2 53" using hi e by simp
    then have "a = of_int (2 ^ 53)" using pow2_nat [of 53] by simp
    then have "\<bar>n\<bar> = 2 ^ 53" unfolding a_def by (simp only: of_int_abs [symmetric] of_int_eq_iff)
    then have "\<bar>n\<bar> = 9007199254740992" by simp
    then have "n = 9007199254740992 \<or> n = - 9007199254740992" by linarith
    then have "n = 2 * (n div 2)" by (elim disjE) simp_all
    then have half: "(of_int n :: real) = of_int (n div 2) * 2"
      by (metis mult.commute of_int_mult of_int_numeral)
    have "pow2 (e - 52) = 2" using e by (simp add: pow2_def)
    then have "spacing \<bar>of_int n\<bar> = 2" by (simp only: u)
    then have "of_int n = of_int (n div 2) * spacing \<bar>of_int n\<bar>"
      by (rule ssubst) (rule half)
    then show ?thesis by (rule fl_fixed)
  qed
qed

lemma fl_whole:
  assumes "x \<in> \<int>" "\<bar>x\<bar> \<le> 10000000"
  shows "fl x = x"
proof -
  obtain n where n: "x = of_int n" using assms(1) by (auto elim: Ints_cases)
  have "\<bar>of_int n :: real\<bar> \<le> of_int 10000000" using assms(2) n by simp
  then have "\<bar>n\<bar> \<le> 10000000" by (simp only: of_int_abs [symmetric] of_int_le_iff)
  then have "\<bar>n\<bar> \<le> 2 ^ 53" by simp
  then show ?thesis unfolding n by (rule fl_of_int)
qed

lemma pow2_numeral: "pow2 (numeral n) = 2 ^ numeral n" "pow2 (- numeral n) = 1 / 2 ^ numeral n"
  "pow2 0 = 1" "pow2 1 = 2" "pow2 (- 1) = 1 / 2"
  by (simp_all add: pow2_def powr_neg_numeral powr_minus field_simps)

lemma spacing_binades:
  "\<not> a < 1 / 4096 \<Longrightarrow> a < 1 / 2048 \<Longrightarrow> spacing a = 1 / 18446744073709551616"
  "\<not> a < 1 / 2048 \<Longrightarrow> a < 1 / 1024 \<Longrightarrow> spacing a = 1 / 9223372036854775808"
  "\<not> a < 1 / 1024 \<Longrightarrow> a < 1 / 512 \<Longrightarrow> spacing a = 1 / 4611686018427387904"
  "\<not> a < 1 / 512 \<Longrightarrow> a < 1 / 256 \<Longrightarrow> spacing a = 1 / 2305843009213693952"
  "\<not> a < 1 / 256 \<Longrightarrow> a < 1 / 128 \<Longrightarrow> spacing a = 1 / 1152921504606846976"
  "\<not> a < 1 / 128 \<Longrightarrow> a < 1 / 64 \<Longrightarrow> spacing a = 1 / 576460752303423488"
  "\<not> a < 1 / 64 \<Longrightarrow> a < 1 / 32 \<Longrightarrow> spacing a = 1 / 288230376151711744"
  "\<not> a < 1 / 32 \<Longrightarrow> a < 1 / 16 \<Longrightarrow> spacing a = 1 / 144115188075855872"
  "\<not> a < 1 / 16 \<Longrightarrow> a < 1 / 8 \<Longrightarrow> spacing a = 1 / 72057594037927936"
  "\<not> a < 1 / 8 \<Longrightarrow> a < 1 / 4 \<Longrightarrow> spacing a = 1 / 36028797018963968"
  "\<not> a < 1 / 4 \<Longrightarrow> a < 1 / 2 \<Longrightarrow> spacing a = 1 / 18014398509481984"
  "\<not> a < 1 / 2 \<Longrightarrow> a < 1 \<Longrightarrow> spacing a = 1 / 9007199254740992"
  "\<not> a < 1 \<Longrightarrow> a < 2 \<Longrightarrow> spacing a = 1 / 4503599627370496"
  "\<not> a < 2 \<Longrightarrow> a < 4 \<Longrightarrow> spacing a = 1 / 2251799813685248"
  "\<not> a < 4 \<Longrightarrow> a < 8 \<Longrightarrow> spacing a = 1 / 1125899906842624"
  "\<not> a < 8 \<Longrightarrow> a < 16 \<Longrightarrow> spacing a = 1 / 562949953421312"
  "\<not> a < 16 \<Longrightarrow> a < 32 \<Longrightarrow> spacing a = 1 / 281474976710656"
  "\<not> a < 32 \<Longrightarrow> a < 64 \<Longrightarrow> spacing a = 1 / 140737488355328"
  "\<not> a < 64 \<Longrightarrow> a < 128 \<Longrightarrow> spacing a = 1 / 70368744177664"
  "\<not> a < 128 \<Longrightarrow> a < 256 \<Longrightarrow> spacing a = 1 / 35184372088832"
  "\<not> a < 256 \<Longrightarrow> a < 512 \<Longrightarrow> spacing a = 1 / 17592186044416"
  "\<not> a < 512 \<Longrightarrow> a < 1024 \<Longrightarrow> spacing a = 1 / 8796093022208"
  "\<not> a < 1024 \<Longrightarrow> a < 2048 \<Longrightarrow> spacing a = 1 / 4398046511104"
  "\<not> a < 2048 \<Longrightarrow> a < 4096 \<Longrightarrow> spacing a = 1 / 2199023255552"
  "\<not> a < 4096 \<Longrightarrow> a < 8192 \<Longrightarrow> spacing a = 1 / 1099511627776"
  "\<not> a < 8192 \<Longrightarrow> a < 16384 \<Longrightarrow> spacing a = 1 / 549755813888"
  "\<not> a < 16384 \<Longrightarrow> a < 32768 \<Longrightarrow> spacing a = 1 / 274877906944"
  "\<not> a < 32768 \<Longrightarrow> a < 65536 \<Longrightarrow> spacing a = 1 / 137438953472"
  "\<not> a < 65536 \<Longrightarrow> a < 131072 \<Longrightarrow> spacing a = 1 / 68719476736"
  "\<not> a < 131072 \<Longrightarrow> a < 262144 \<Longrightarrow> spacing a = 1 / 34359738368"
  "\<not> a < 262144 \<Longrightarrow> a < 524288 \<Longrightarrow> spacing a = 1 / 17179869184"
  "\<not> a < 524288 \<Longrightarrow> a < 1048576 \<Longrightarrow> spacing a = 1 / 8589934592"
  "\<not> a < 1048576 \<Longrightarrow> a < 2097152 \<Longrightarrow> spacing a = 1 / 4294967296"
  subgoal using double_exponent_eq [of "-12" a] by (simp add: spacing_def pow2_numeral not_less)
  subgoal using double_exponent_eq [of "-11" a] by (simp add: spacing_def pow2_numeral not_less)
  subgoal using double_exponent_eq [of "-10" a] by (simp add: spacing_def pow2_numeral not_less)
  subgoal using double_exponent_eq [of "-9" a] by (simp add: spacing_def pow2_numeral not_less)
  subgoal using double_exponent_eq [of "-8" a] by (simp add: spacing_def pow2_numeral not_less)
  subgoal using double_exponent_eq [of "-7" a] by (simp add: spacing_def pow2_numeral not_less)
  subgoal using double_exponent_eq [of "-6" a] by (simp add: spacing_def pow2_numeral not_less)
  subgoal using double_exponent_eq [of "-5" a] by (simp add: spacing_def pow2_numeral not_less)
  subgoal using double_exponent_eq [of "-4" a] by (simp add: spacing_def pow2_numeral not_less)
  subgoal using double_exponent_eq [of "-3" a] by (simp add: spacing_def pow2_numeral not_less)
  subgoal using double_exponent_eq [of "-2" a] by (simp add: spacing_def pow2_numeral not_less)
  subgoal using double_exponent_eq [of "-1" a] by (simp add: spacing_def pow2_numeral not_less)
  subgoal using double_exponent_eq [of "0" a] by (simp add: spacing_def pow2_numeral not_less)
  subgoal using double_exponent_eq [of "1" a] by (simp add: spacing_def pow2_numeral not_less)
  subgoal using double_exponent_eq [of "2" a] by (simp add: spacing_def pow2_numeral not_less)
  subgoal using double_exponent_eq [of "3" a] by (simp add: spacing_def pow2_numeral not_less)
  subgoal using double_exponent_eq [of "4" a] by (simp add: spacing_def pow2_numeral not_less)
  subgoal using double_exponent_eq [of "5" a] by (simp add: spacing_def pow2_numeral not_less)
  subgoal using double_exponent_eq [of "6" a] by (simp add: spacing_def pow2_numeral not_less)
  subgoal using double_exponent_eq [of "7" a] by (simp add: spacing_def pow2_numeral not_less)
  subgoal using double_exponent_eq [of "8" a] by (simp add: spacing_def pow2_numeral not_less)
  subgoal using double_exponent_eq [of "9" a] by (simp add: spacing_def pow2_numeral not_less)
  subgoal using double_exponent_eq [of "10" a] by (simp add: spacing_def pow2_numeral not_less)
  subgoal using double_exponent_eq [of "11" a] by (simp add: spacing_def pow2_numeral not_less)
  subgoal using double_exponent_eq [of "12" a] by (simp add: spacing_def pow2_numeral not_less)
  subgoal using double_exponent_eq [of "13" a] by (simp add: spacing_def pow2_numeral not_less)
  subgoal using double_exponent_eq [of "14" a] by (simp add: spacing_def pow2_numeral not_less)
  subgoal using double_exponent_eq [of "15" a] by (simp add: spacing_def pow2_numeral not_less)
  subgoal using double_exponent_eq [of "16" a] by (simp add: spacing_def pow2_numeral not_less)
  subgoal using double_exponent_eq [of "17" a] by (simp add: spacing_def pow2_numeral not_less)
  subgoal using double_exponent_eq [of "18" a] by (simp add: spacing_def pow2_numeral not_less)
  subgoal using double_exponent_eq [of "19" a] by (simp add: spacing_def pow2_numeral not_less)
  subgoal using double_exponent_eq [of "20" a] by (simp add: spacing_def pow2_numeral not_less)
  done

text \<open>
  The rounding by cases of the binade, for magnitudes from \<open>2\<^sup>-\<^sup>1\<^sup>2\<close> up to \<open>2\<^sup>2\<^sup>1\<close>.
\<close>

lemma fl_code [code]:
  "fl x =
     (if x = 0 then 0
      else if \<bar>x\<bar> < 1 / 4096 \<or> 2097152 \<le> \<bar>x\<bar> then nearest_multiple (spacing \<bar>x\<bar>) x
      else (if \<bar>x\<bar> < 16
            then (if \<bar>x\<bar> < 1 / 16
              then (if \<bar>x\<bar> < 1 / 256
                then (if \<bar>x\<bar> < 1 / 1024
                  then (if \<bar>x\<bar> < 1 / 2048
                    then nearest_multiple (1 / 18446744073709551616) x
                    else nearest_multiple (1 / 9223372036854775808) x)
                  else (if \<bar>x\<bar> < 1 / 512
                    then nearest_multiple (1 / 4611686018427387904) x
                    else nearest_multiple (1 / 2305843009213693952) x))
                else (if \<bar>x\<bar> < 1 / 64
                  then (if \<bar>x\<bar> < 1 / 128
                    then nearest_multiple (1 / 1152921504606846976) x
                    else nearest_multiple (1 / 576460752303423488) x)
                  else (if \<bar>x\<bar> < 1 / 32
                    then nearest_multiple (1 / 288230376151711744) x
                    else nearest_multiple (1 / 144115188075855872) x)))
              else (if \<bar>x\<bar> < 1
                then (if \<bar>x\<bar> < 1 / 4
                  then (if \<bar>x\<bar> < 1 / 8
                    then nearest_multiple (1 / 72057594037927936) x
                    else nearest_multiple (1 / 36028797018963968) x)
                  else (if \<bar>x\<bar> < 1 / 2
                    then nearest_multiple (1 / 18014398509481984) x
                    else nearest_multiple (1 / 9007199254740992) x))
                else (if \<bar>x\<bar> < 4
                  then (if \<bar>x\<bar> < 2
                    then nearest_multiple (1 / 4503599627370496) x
                    else nearest_multiple (1 / 2251799813685248) x)
                  else (if \<bar>x\<bar> < 8
                    then nearest_multiple (1 / 1125899906842624) x
                    else nearest_multiple (1 / 562949953421312) x))))
            else (if \<bar>x\<bar> < 4096
              then (if \<bar>x\<bar> < 256
                then (if \<bar>x\<bar> < 64
                  then (if \<bar>x\<bar> < 32
                    then nearest_multiple (1 / 281474976710656) x
                    else nearest_multiple (1 / 140737488355328) x)
                  else (if \<bar>x\<bar> < 128
                    then nearest_multiple (1 / 70368744177664) x
                    else nearest_multiple (1 / 35184372088832) x))
                else (if \<bar>x\<bar> < 1024
                  then (if \<bar>x\<bar> < 512
                    then nearest_multiple (1 / 17592186044416) x
                    else nearest_multiple (1 / 8796093022208) x)
                  else (if \<bar>x\<bar> < 2048
                    then nearest_multiple (1 / 4398046511104) x
                    else nearest_multiple (1 / 2199023255552) x)))
              else (if \<bar>x\<bar> < 65536
                then (if \<bar>x\<bar> < 16384
                  then (if \<bar>x\<bar> < 8192
                    then nearest_multiple (1 / 1099511627776) x
                    else nearest_multiple (1 / 549755813888) x)
                  else (if \<bar>x\<bar> < 32768
                    then nearest_multiple (1 / 274877906944) x
                    else nearest_multiple (1 / 137438953472) x))
                else (if \<bar>x\<bar> < 262144
                  then (if \<bar>x\<bar> < 131072
                    then nearest_multiple (1 / 68719476736) x
                    else nearest_multiple (1 / 34359738368) x)
                  else (if \<bar>x\<bar> < 524288
                    then nearest_multiple (1 / 17179869184) x
                    else (if \<bar>x\<bar> < 1048576
                      then nearest_multiple (1 / 8589934592) x
                      else nearest_multiple (1 / 4294967296) x)))))))"
proof (cases "x = 0")
  case True
  then show ?thesis by simp
next
  case nz: False
  show ?thesis
  proof (cases "\<bar>x\<bar> < 1 / 4096 \<or> 2097152 \<le> \<bar>x\<bar>")
    case True
    then show ?thesis using nz by (simp add: fl_def)
  next
    case out: False
    then have r: "\<not> \<bar>x\<bar> < 1 / 4096" "\<bar>x\<bar> < 2097152" by simp_all
    show ?thesis
    proof (cases "\<bar>x\<bar> < 16")
      case c1: True
      show ?thesis
      proof (cases "\<bar>x\<bar> < 1 / 16")
        case c2: True
        show ?thesis
        proof (cases "\<bar>x\<bar> < 1 / 256")
          case c3: True
          show ?thesis
          proof (cases "\<bar>x\<bar> < 1 / 1024")
            case c4: True
            show ?thesis
            proof (cases "\<bar>x\<bar> < 1 / 2048")
              case c5: True
              show ?thesis
                using nz out r c1 c2 c3 c4 c5
                by (simp add: fl_def spacing_binades(1))
            next
              case c5: False
              show ?thesis
                using nz out r c1 c2 c3 c4 c5
                by (simp add: fl_def spacing_binades(2))
            qed
          next
            case c4: False
            show ?thesis
            proof (cases "\<bar>x\<bar> < 1 / 512")
              case c5: True
              show ?thesis
                using nz out r c1 c2 c3 c4 c5
                by (simp add: fl_def spacing_binades(3))
            next
              case c5: False
              show ?thesis
                using nz out r c1 c2 c3 c4 c5
                by (simp add: fl_def spacing_binades(4))
            qed
          qed
        next
          case c3: False
          show ?thesis
          proof (cases "\<bar>x\<bar> < 1 / 64")
            case c4: True
            show ?thesis
            proof (cases "\<bar>x\<bar> < 1 / 128")
              case c5: True
              show ?thesis
                using nz out r c1 c2 c3 c4 c5
                by (simp add: fl_def spacing_binades(5))
            next
              case c5: False
              show ?thesis
                using nz out r c1 c2 c3 c4 c5
                by (simp add: fl_def spacing_binades(6))
            qed
          next
            case c4: False
            show ?thesis
            proof (cases "\<bar>x\<bar> < 1 / 32")
              case c5: True
              show ?thesis
                using nz out r c1 c2 c3 c4 c5
                by (simp add: fl_def spacing_binades(7))
            next
              case c5: False
              show ?thesis
                using nz out r c1 c2 c3 c4 c5
                by (simp add: fl_def spacing_binades(8))
            qed
          qed
        qed
      next
        case c2: False
        show ?thesis
        proof (cases "\<bar>x\<bar> < 1")
          case c3: True
          show ?thesis
          proof (cases "\<bar>x\<bar> < 1 / 4")
            case c4: True
            show ?thesis
            proof (cases "\<bar>x\<bar> < 1 / 8")
              case c5: True
              show ?thesis
                using nz out r c1 c2 c3 c4 c5
                by (simp add: fl_def spacing_binades(9))
            next
              case c5: False
              show ?thesis
                using nz out r c1 c2 c3 c4 c5
                by (simp add: fl_def spacing_binades(10))
            qed
          next
            case c4: False
            show ?thesis
            proof (cases "\<bar>x\<bar> < 1 / 2")
              case c5: True
              show ?thesis
                using nz out r c1 c2 c3 c4 c5
                by (simp add: fl_def spacing_binades(11))
            next
              case c5: False
              show ?thesis
                using nz out r c1 c2 c3 c4 c5
                by (simp add: fl_def spacing_binades(12))
            qed
          qed
        next
          case c3: False
          show ?thesis
          proof (cases "\<bar>x\<bar> < 4")
            case c4: True
            show ?thesis
            proof (cases "\<bar>x\<bar> < 2")
              case c5: True
              show ?thesis
                using nz out r c1 c2 c3 c4 c5
                by (simp add: fl_def spacing_binades(13))
            next
              case c5: False
              show ?thesis
                using nz out r c1 c2 c3 c4 c5
                by (simp add: fl_def spacing_binades(14))
            qed
          next
            case c4: False
            show ?thesis
            proof (cases "\<bar>x\<bar> < 8")
              case c5: True
              show ?thesis
                using nz out r c1 c2 c3 c4 c5
                by (simp add: fl_def spacing_binades(15))
            next
              case c5: False
              show ?thesis
                using nz out r c1 c2 c3 c4 c5
                by (simp add: fl_def spacing_binades(16))
            qed
          qed
        qed
      qed
    next
      case c1: False
      show ?thesis
      proof (cases "\<bar>x\<bar> < 4096")
        case c2: True
        show ?thesis
        proof (cases "\<bar>x\<bar> < 256")
          case c3: True
          show ?thesis
          proof (cases "\<bar>x\<bar> < 64")
            case c4: True
            show ?thesis
            proof (cases "\<bar>x\<bar> < 32")
              case c5: True
              show ?thesis
                using nz out r c1 c2 c3 c4 c5
                by (simp add: fl_def spacing_binades(17))
            next
              case c5: False
              show ?thesis
                using nz out r c1 c2 c3 c4 c5
                by (simp add: fl_def spacing_binades(18))
            qed
          next
            case c4: False
            show ?thesis
            proof (cases "\<bar>x\<bar> < 128")
              case c5: True
              show ?thesis
                using nz out r c1 c2 c3 c4 c5
                by (simp add: fl_def spacing_binades(19))
            next
              case c5: False
              show ?thesis
                using nz out r c1 c2 c3 c4 c5
                by (simp add: fl_def spacing_binades(20))
            qed
          qed
        next
          case c3: False
          show ?thesis
          proof (cases "\<bar>x\<bar> < 1024")
            case c4: True
            show ?thesis
            proof (cases "\<bar>x\<bar> < 512")
              case c5: True
              show ?thesis
                using nz out r c1 c2 c3 c4 c5
                by (simp add: fl_def spacing_binades(21))
            next
              case c5: False
              show ?thesis
                using nz out r c1 c2 c3 c4 c5
                by (simp add: fl_def spacing_binades(22))
            qed
          next
            case c4: False
            show ?thesis
            proof (cases "\<bar>x\<bar> < 2048")
              case c5: True
              show ?thesis
                using nz out r c1 c2 c3 c4 c5
                by (simp add: fl_def spacing_binades(23))
            next
              case c5: False
              show ?thesis
                using nz out r c1 c2 c3 c4 c5
                by (simp add: fl_def spacing_binades(24))
            qed
          qed
        qed
      next
        case c2: False
        show ?thesis
        proof (cases "\<bar>x\<bar> < 65536")
          case c3: True
          show ?thesis
          proof (cases "\<bar>x\<bar> < 16384")
            case c4: True
            show ?thesis
            proof (cases "\<bar>x\<bar> < 8192")
              case c5: True
              show ?thesis
                using nz out r c1 c2 c3 c4 c5
                by (simp add: fl_def spacing_binades(25))
            next
              case c5: False
              show ?thesis
                using nz out r c1 c2 c3 c4 c5
                by (simp add: fl_def spacing_binades(26))
            qed
          next
            case c4: False
            show ?thesis
            proof (cases "\<bar>x\<bar> < 32768")
              case c5: True
              show ?thesis
                using nz out r c1 c2 c3 c4 c5
                by (simp add: fl_def spacing_binades(27))
            next
              case c5: False
              show ?thesis
                using nz out r c1 c2 c3 c4 c5
                by (simp add: fl_def spacing_binades(28))
            qed
          qed
        next
          case c3: False
          show ?thesis
          proof (cases "\<bar>x\<bar> < 262144")
            case c4: True
            show ?thesis
            proof (cases "\<bar>x\<bar> < 131072")
              case c5: True
              show ?thesis
                using nz out r c1 c2 c3 c4 c5
                by (simp add: fl_def spacing_binades(29))
            next
              case c5: False
              show ?thesis
                using nz out r c1 c2 c3 c4 c5
                by (simp add: fl_def spacing_binades(30))
            qed
          next
            case c4: False
            show ?thesis
            proof (cases "\<bar>x\<bar> < 524288")
              case c5: True
              show ?thesis
                using nz out r c1 c2 c3 c4 c5
                by (simp add: fl_def spacing_binades(31))
            next
              case c5: False
              show ?thesis
              proof (cases "\<bar>x\<bar> < 1048576")
                case c6: True
                show ?thesis
                  using nz out r c1 c2 c3 c4 c5 c6
                  by (simp add: fl_def spacing_binades(32))
              next
                case c6: False
                show ?thesis
                  using nz out r c1 c2 c3 c4 c5 c6
                  by (simp add: fl_def spacing_binades(33))
              qed
            qed
          qed
        qed
      qed
    qed
  qed
qed

declare double_exponent_def [code del]

section \<open>Correctness of heapq\<close>

lemma desc_le: "desc i p \<Longrightarrow> i \<le> p"
  by (induction rule: desc.induct) auto

lemma desc_parent: "desc i p \<Longrightarrow> i < p \<Longrightarrow> desc i ((p - 1) div 2)"
  by (induction rule: desc.induct) auto

lemma desc_zero: "desc 0 p"
proof (induction p rule: less_induct)
  case (less p)
  show ?case
  proof (cases "p = 0")
    case True
    then show ?thesis by (simp add: desc_refl)
  next
    case False
    then have "desc 0 ((p - 1) div 2)" using less by simp
    moreover have "p = 2 * ((p - 1) div 2) + 1 \<or> p = 2 * ((p - 1) div 2) + 2"
      using False by presburger
    ultimately show ?thesis
      using desc_left [of 0 "(p - 1) div 2"] desc_right [of 0 "(p - 1) div 2"] by metis
  qed
qed

lemma par_less: "0 < c \<Longrightarrow> (c - 1) div 2 < (c::nat)"
  by presburger

lemma par_le: "(c - 1) div 2 \<le> (c::nat)"
  by presburger

lemma length_siftdown_loop [simp]: "length (siftdown_loop key xs i pos v) = length xs"
  by (induction key xs i pos v rule: siftdown_loop.induct)
     (subst siftdown_loop.simps, simp)

lemma length_siftup_loop [simp]: "length (fst (siftup_loop key xs pos n)) = length xs"
  by (induction key xs pos n rule: siftup_loop.induct)
     (subst siftup_loop.simps, simp)

lemma length_siftup [simp]: "length (siftup key xs i) = length xs"
  using length_siftup_loop [of key xs i "length xs"]
  by (cases "siftup_loop key xs i (length xs)") (simp add: siftup_def siftdown_def)

lemma heap_hole_cong:
  assumes len: "length ys = length xs" and same: "\<And>j. j \<noteq> pos \<Longrightarrow> ys ! j = xs ! j"
    and h: "heap_hole key xs i pos"
  shows "heap_hole key ys i pos"
  unfolding heap_hole_def
proof (intro conjI allI impI)
  fix c assume c: "0 < c \<and> c < length ys \<and> i \<le> (c - 1) div 2 \<and> (c - 1) div 2 \<noteq> pos \<and> c \<noteq> pos"
  then have "key (xs ! ((c - 1) div 2)) \<le> key (xs ! c)"
    using h len unfolding heap_hole_def by simp
  then show "key (ys ! ((c - 1) div 2)) \<le> key (ys ! c)"
    using c same by simp
next
  fix c assume lt: "i < pos" and c: "0 < c \<and> c < length ys \<and> (c - 1) div 2 = pos"
  have ne: "(pos - 1) div 2 \<noteq> pos" using par_less [of pos] lt by simp
  have cp: "c \<noteq> pos" using par_less [of c] c by auto
  have "key (xs ! ((pos - 1) div 2)) \<le> key (xs ! c)"
    using h len lt c unfolding heap_hole_def by simp
  then show "key (ys ! ((pos - 1) div 2)) \<le> key (ys ! c)"
    using same [OF ne] same [OF cp] by simp
qed

lemma heap_hole_update: "heap_hole key (xs[pos := v]) i pos = heap_hole key xs i pos"
proof
  assume "heap_hole key (xs[pos := v]) i pos"
  then show "heap_hole key xs i pos"
    by (rule heap_hole_cong [rotated 2]) simp_all
next
  assume "heap_hole key xs i pos"
  then show "heap_hole key (xs[pos := v]) i pos"
    by (rule heap_hole_cong [rotated 2]) simp_all
qed

lemma heap_from_hole: "heap_from key xs (Suc i) \<Longrightarrow> heap_hole key xs i i"
proof -
  assume h: "heap_from key xs (Suc i)"
  have "key (xs ! ((c - 1) div 2)) \<le> key (xs ! c)"
    if "0 < c" "c < length xs" "i \<le> (c - 1) div 2" "(c - 1) div 2 \<noteq> i" for c
  proof -
    have "Suc i \<le> (c - 1) div 2" using that by simp
    then show ?thesis using h that unfolding heap_from_def by blast
  qed
  then show ?thesis unfolding heap_hole_def by simp
qed

lemma siftdown_step_hole:
  assumes d: "desc i pos" and lt: "i < pos" and len: "pos < length xs"
    and hole: "heap_hole key xs i pos"
    and v: "\<forall>c. 0 < c \<and> c < length xs \<and> (c - 1) div 2 = pos \<longrightarrow> key v \<le> key (xs ! c)"
    and less: "key v < key (xs ! ((pos - 1) div 2))"
  shows "heap_hole key (xs[pos := xs ! ((pos - 1) div 2)]) i ((pos - 1) div 2)"
    and "\<forall>c. 0 < c \<and> c < length xs \<and> (c - 1) div 2 = (pos - 1) div 2 \<longrightarrow>
           key v \<le> key (xs[pos := xs ! ((pos - 1) div 2)] ! c)"
proof -
  define q where "q = (pos - 1) div 2"
  define g where "g = (q - 1) div 2"
  define ys where "ys = xs[pos := xs ! q]"
  have q: "q < pos" "0 < pos" using lt par_less [of pos] by (auto simp: q_def)
  have dq: "desc i q" unfolding q_def using desc_parent [OF d lt] .
  have iq: "i \<le> q" using desc_le [OF dq] .
  have gq: "g \<le> q" unfolding g_def by (rule par_le)
  have gpos: "g \<noteq> pos" using gq q by simp
  have ysq: "ys ! q = xs ! q" "ys ! g = xs ! g" "ys ! pos = xs ! q"
    using q gpos len by (auto simp: ys_def)
  have ysc: "ys ! c = xs ! c" if "c \<noteq> pos" for c using that by (simp add: ys_def)
  have h1: "key (xs ! ((c - 1) div 2)) \<le> key (xs ! c)"
    if "0 < c" "c < length xs" "i \<le> (c - 1) div 2" "(c - 1) div 2 \<noteq> pos" "c \<noteq> pos" for c
    using hole that unfolding heap_hole_def by blast
  have h2: "key (xs ! q) \<le> key (xs ! c)" if "0 < c" "c < length xs" "(c - 1) div 2 = pos" for c
    using hole lt that unfolding heap_hole_def q_def by blast
  have sib: "key (xs ! q) \<le> key (xs ! c)"
    if "0 < c" "c < length xs" "(c - 1) div 2 = q" "c \<noteq> pos" for c
  proof -
    have "key (xs ! ((c - 1) div 2)) \<le> key (xs ! c)"
      by (rule h1) (use that iq q in auto)
    then show ?thesis using that by simp
  qed
  have up: "key (xs ! g) \<le> key (xs ! q)" if "i < q"
  proof -
    have "i \<le> g" unfolding g_def using desc_le [OF desc_parent [OF dq that]] .
    moreover have "0 < q" using that by simp
    moreover have "q < length xs" using q len by simp
    moreover have "q \<noteq> pos" using q by simp
    ultimately have "key (xs ! ((q - 1) div 2)) \<le> key (xs ! q)"
      using gpos by (intro h1) (auto simp: g_def)
    then show ?thesis by (simp add: g_def)
  qed
  have part1: "key (ys ! ((c - 1) div 2)) \<le> key (ys ! c)"
    if c: "0 < c" "c < length xs" "i \<le> (c - 1) div 2" "(c - 1) div 2 \<noteq> q" "c \<noteq> q" for c
  proof -
    have cp: "c \<noteq> pos" using c q_def by auto
    show ?thesis
    proof (cases "(c - 1) div 2 = pos")
      case True
      then show ?thesis using h2 [of c] c cp ysq ysc [of c] by simp
    next
      case False
      then show ?thesis using h1 [of c] c cp ysc [of c] ysc [of "(c - 1) div 2"] by simp
    qed
  qed
  have part2: "key (ys ! g) \<le> key (ys ! c)"
    if c: "i < q" "0 < c" "c < length xs" "(c - 1) div 2 = q" for c
  proof (cases "c = pos")
    case True
    then show ?thesis using up [OF c(1)] ysq by simp
  next
    case False
    have "key (xs ! g) \<le> key (xs ! c)"
      using up [OF c(1)] sib [OF c(2,3,4) False] by (rule order_trans)
    then show ?thesis using ysq ysc [OF False] by simp
  qed
  have "heap_hole key ys i q"
    unfolding heap_hole_def using part1 part2 by (simp add: g_def ys_def)
  then show "heap_hole key (xs[pos := xs ! ((pos - 1) div 2)]) i ((pos - 1) div 2)"
    by (simp add: ys_def q_def)
  have "key v \<le> key (ys ! c)" if c: "0 < c" "c < length xs" "(c - 1) div 2 = q" for c
  proof (cases "c = pos")
    case True
    then show ?thesis using less ysq by (simp add: q_def)
  next
    case False
    have "key v \<le> key (xs ! q)" using less by (simp add: q_def)
    then have "key v \<le> key (xs ! c)" using sib [OF c False] by (rule order_trans)
    then show ?thesis using ysc [OF False] by simp
  qed
  then show "\<forall>c. 0 < c \<and> c < length xs \<and> (c - 1) div 2 = (pos - 1) div 2 \<longrightarrow>
           key v \<le> key (xs[pos := xs ! ((pos - 1) div 2)] ! c)"
    by (simp add: ys_def q_def)
qed

lemma siftdown_stop_heap:
  assumes d: "desc i pos" and len: "pos < length xs"
    and hole: "heap_hole key xs i pos"
    and v: "\<forall>c. 0 < c \<and> c < length xs \<and> (c - 1) div 2 = pos \<longrightarrow> key v \<le> key (xs ! c)"
    and stop: "i < pos \<longrightarrow> key (xs ! ((pos - 1) div 2)) \<le> key v"
  shows "heap_from key (xs[pos := v]) i"
  unfolding heap_from_def
proof (intro allI impI)
  fix c assume c: "0 < c \<and> c < length (xs[pos := v]) \<and> i \<le> (c - 1) div 2"
  have ipos: "i \<le> pos" using desc_le [OF d] .
  have h1: "key (xs ! ((c - 1) div 2)) \<le> key (xs ! c)"
    if "(c - 1) div 2 \<noteq> pos" "c \<noteq> pos"
    using hole that c unfolding heap_hole_def by simp
  show "key (xs[pos := v] ! ((c - 1) div 2)) \<le> key (xs[pos := v] ! c)"
  proof (cases "c = pos")
    case True
    have "(pos - 1) div 2 < pos" using c True by presburger
    then show ?thesis using True stop c len by simp
  next
    case False
    show ?thesis
    proof (cases "(c - 1) div 2 = pos")
      case True
      then show ?thesis using v c False len by simp
    next
      case F2: False
      then show ?thesis using h1 False by simp
    qed
  qed
qed

lemma siftdown_loop_heap:
  "desc i pos \<Longrightarrow> pos < length xs \<Longrightarrow> heap_hole key xs i pos \<Longrightarrow>
   (\<forall>c. 0 < c \<and> c < length xs \<and> (c - 1) div 2 = pos \<longrightarrow> key v \<le> key (xs ! c)) \<Longrightarrow>
   heap_from key (siftdown_loop key xs i pos v) i"
proof (induction key xs i pos v rule: siftdown_loop.induct)
  case (1 key heap startpos pos newitem)
  let ?par = "(pos - 1) div 2"
  show ?case
  proof (cases "startpos < pos \<and> key newitem < key (heap ! ?par)")
    case True
    then have lt: "startpos < pos" and less: "key newitem < key (heap ! ?par)" by auto
    have par: "?par < pos" using lt by presburger
    have "heap_from key (siftdown_loop key (heap[pos := heap ! ?par]) startpos ?par newitem) startpos"
    proof (rule "1.IH" [OF lt less desc_parent [OF "1.prems"(1) lt]])
      show "?par < length (heap[pos := heap ! ?par])" using par "1.prems"(2) by simp
      show "heap_hole key (heap[pos := heap ! ?par]) startpos ?par"
        using siftdown_step_hole(1) [OF "1.prems"(1) lt "1.prems"(2,3,4) less] .
      show "\<forall>c. 0 < c \<and> c < length (heap[pos := heap ! ?par]) \<and> (c - 1) div 2 = ?par \<longrightarrow>
        key newitem \<le> key (heap[pos := heap ! ?par] ! c)"
        using siftdown_step_hole(2) [OF "1.prems"(1) lt "1.prems"(2,3,4) less] by simp
    qed
    then show ?thesis using True by (subst siftdown_loop.simps) simp
  next
    case False
    then have stop: "startpos < pos \<longrightarrow> key (heap ! ?par) \<le> key newitem" by auto
    have "siftdown_loop key heap startpos pos newitem = heap[pos := newitem]"
      using False by (subst siftdown_loop.simps) auto
    then show ?thesis
      using siftdown_stop_heap [OF "1.prems"(1,2,3,4) stop] by simp
  qed
qed


lemma smaller_child_cases:
  assumes "2 * pos + 1 < n"
  shows "smaller_child key xs pos n = 2 * pos + 1 \<or> smaller_child key xs pos n = 2 * pos + 2"
    and "smaller_child key xs pos n < n"
    and "(smaller_child key xs pos n - 1) div 2 = pos"
    and "pos < smaller_child key xs pos n"
  using assms by (auto simp: smaller_child_def)

lemma smaller_child_le:
  assumes "2 * pos + 1 < n" "0 < c" "c < n" "(c - 1) div 2 = pos"
  shows "key (xs ! smaller_child key xs pos n) \<le> key (xs ! c)"
proof -
  have "c = 2 * pos + 1 \<or> c = 2 * pos + 2" using assms by presburger
  then show ?thesis using assms by (auto simp: smaller_child_def)
qed

lemma siftup_step_hole:
  assumes d: "desc i pos" and ch: "2 * pos + 1 < length xs"
    and hole: "heap_hole key xs i pos"
  shows "heap_hole key (xs[pos := xs ! smaller_child key xs pos (length xs)]) i
           (smaller_child key xs pos (length xs))"
proof -
  define s where "s = smaller_child key xs pos (length xs)"
  define ys where "ys = xs[pos := xs ! s]"
  have s: "s < length xs" "(s - 1) div 2 = pos" "pos < s"
    using smaller_child_cases [OF ch, of key xs] by (auto simp: s_def)
  have ipos: "i \<le> pos" using desc_le [OF d] .
  have len: "pos < length xs" using ch by simp
  have ysp: "ys ! pos = xs ! s" using len by (simp add: ys_def)
  have ysc: "ys ! c = xs ! c" if "c \<noteq> pos" for c using that by (simp add: ys_def)
  have h1: "key (xs ! ((c - 1) div 2)) \<le> key (xs ! c)"
    if "0 < c" "c < length xs" "i \<le> (c - 1) div 2" "(c - 1) div 2 \<noteq> pos" "c \<noteq> pos" for c
    using hole that unfolding heap_hole_def by blast
  have h2: "key (xs ! ((pos - 1) div 2)) \<le> key (xs ! c)"
    if "i < pos" "0 < c" "c < length xs" "(c - 1) div 2 = pos" for c
    using hole that unfolding heap_hole_def by blast
  have part1: "key (ys ! ((c - 1) div 2)) \<le> key (ys ! c)"
    if c: "0 < c" "c < length xs" "i \<le> (c - 1) div 2" "(c - 1) div 2 \<noteq> s" "c \<noteq> s" for c
  proof (cases "c = pos")
    case True
    have ne: "(pos - 1) div 2 \<noteq> pos" using par_less [of pos] c True by simp
    have "i < pos" using c True par_less [of pos] by simp
    then have "key (xs ! ((pos - 1) div 2)) \<le> key (xs ! s)"
      using h2 [of s] s by simp
    then show ?thesis using True ysp ysc [OF ne] by simp
  next
    case False
    show ?thesis
    proof (cases "(c - 1) div 2 = pos")
      case True
      have "key (xs ! s) \<le> key (xs ! c)"
        unfolding s_def using smaller_child_le [OF ch c(1,2) True] .
      then show ?thesis using True ysp ysc [OF False] by simp
    next
      case F: False
      then show ?thesis using h1 [OF c(1,2,3) F False] ysc [OF False] ysc [OF F] by simp
    qed
  qed
  have part2: "key (ys ! ((s - 1) div 2)) \<le> key (ys ! c)"
    if c: "0 < c" "c < length xs" "(c - 1) div 2 = s" for c
  proof -
    have cs: "s < c" using par_less [of c] c by simp
    then have cp: "c \<noteq> pos" "c \<noteq> s" using s by auto
    have "s \<noteq> pos" using s by simp
    then have "key (xs ! ((c - 1) div 2)) \<le> key (xs ! c)"
      using h1 [of c] c cp ipos s by simp
    then show ?thesis using c s ysp ysc [OF cp(1)] by simp
  qed
  have "heap_hole key ys i s"
    unfolding heap_hole_def using part1 part2 by (simp add: ys_def)
  then show ?thesis by (simp add: ys_def s_def)
qed

lemma siftup_loop_hole:
  "desc i pos \<Longrightarrow> pos < length xs \<Longrightarrow> heap_hole key xs i pos \<Longrightarrow> n = length xs \<Longrightarrow>
   siftup_loop key xs pos n = (ys, leaf) \<Longrightarrow>
   desc i leaf \<and> leaf < length ys \<and> length ys = length xs \<and> heap_hole key ys i leaf \<and>
   \<not> 2 * leaf + 1 < length ys"
proof (induction key xs pos n arbitrary: ys leaf rule: siftup_loop.induct)
  case (1 key heap pos endpos)
  show ?case
  proof (cases "2 * pos + 1 < endpos")
    case True
    let ?s = "smaller_child key heap pos endpos"
    have ch: "2 * pos + 1 < length heap" using True "1.prems"(4) by simp
    have sc: "?s = 2 * pos + 1 \<or> ?s = 2 * pos + 2" "?s < endpos"
      using smaller_child_cases [OF True, of key heap] by auto
    have d: "desc i ?s"
      using sc(1) desc_left [OF "1.prems"(1)] desc_right [OF "1.prems"(1)] by auto
    have eq: "siftup_loop key (heap[pos := heap ! ?s]) ?s endpos = (ys, leaf)"
      using "1.prems"(5) True by (subst (asm) siftup_loop.simps) simp
    have "desc i leaf \<and> leaf < length ys \<and> length ys = length (heap[pos := heap ! ?s]) \<and>
          heap_hole key ys i leaf \<and> \<not> 2 * leaf + 1 < length ys"
    proof (rule "1.IH" [OF True d _ _ _ eq])
      show "?s < length (heap[pos := heap ! ?s])" using sc "1.prems"(4) by simp
      show "heap_hole key (heap[pos := heap ! ?s]) i ?s"
        using siftup_step_hole [OF "1.prems"(1) ch "1.prems"(3)] "1.prems"(4) by simp
      show "endpos = length (heap[pos := heap ! ?s])" using "1.prems"(4) by simp
    qed
    then show ?thesis by simp
  next
    case False
    then have "ys = heap" "leaf = pos"
      using "1.prems"(5) by (subst (asm) siftup_loop.simps, simp)+
    then show ?thesis using "1.prems" False by simp
  qed
qed

lemma siftup_heap:
  assumes h: "heap_from key xs (Suc i)" and len: "i < length xs"
  shows "heap_from key (siftup key xs i) i"
proof -
  obtain ys leaf where eq: "siftup_loop key xs i (length xs) = (ys, leaf)"
    by (cases "siftup_loop key xs i (length xs)")
  have r: "desc i leaf" "leaf < length ys" "length ys = length xs" "heap_hole key ys i leaf"
    "\<not> 2 * leaf + 1 < length ys"
    using siftup_loop_hole [OF desc_refl len heap_from_hole [OF h] refl eq] by auto
  let ?zs = "ys[leaf := xs ! i]"
  have nochild: "\<forall>c. 0 < c \<and> c < length ?zs \<and> (c - 1) div 2 = leaf \<longrightarrow> key (?zs ! leaf) \<le> key (?zs ! c)"
  proof (intro allI impI)
    fix c assume c: "0 < c \<and> c < length ?zs \<and> (c - 1) div 2 = leaf"
    then have "c = 2 * leaf + 1 \<or> c = 2 * leaf + 2" by presburger
    then have False using c r(5) by auto
    then show "key (?zs ! leaf) \<le> key (?zs ! c)" ..
  qed
  have "heap_from key (siftdown_loop key ?zs i leaf (?zs ! leaf)) i"
    by (rule siftdown_loop_heap [OF r(1)]) (use r nochild in \<open>simp_all add: heap_hole_update\<close>)
  then show ?thesis by (simp add: siftup_def eq siftdown_def)
qed


lemma heap_root_min:
  assumes h: "is_heap key xs"
  shows "j < length xs \<Longrightarrow> key (xs ! 0) \<le> key (xs ! j)"
proof (induction j rule: less_induct)
  case (less j)
  show ?case
  proof (cases "j = 0")
    case True
    then show ?thesis by simp
  next
    case False
    have pj: "(j - 1) div 2 < j" using par_less [of j] False by simp
    have "key (xs ! ((j - 1) div 2)) \<le> key (xs ! j)"
      using h False less.prems unfolding is_heap_def heap_from_def by simp
    moreover have "key (xs ! 0) \<le> key (xs ! ((j - 1) div 2))"
      using less.IH [OF pj] pj less.prems by simp
    ultimately show ?thesis by (rule order_trans [rotated])
  qed
qed

lemma heappush_heap:
  assumes h: "is_heap key xs"
  shows "is_heap key (heappush key xs x)"
proof -
  let ?n = "length xs"
  let ?zs = "xs @ [x]"
  have hole: "heap_hole key ?zs 0 ?n"
    unfolding heap_hole_def
  proof (intro conjI allI impI)
    fix c assume c: "0 < c \<and> c < length ?zs \<and> 0 \<le> (c - 1) div 2 \<and> (c - 1) div 2 \<noteq> ?n \<and> c \<noteq> ?n"
    then have cn: "c < ?n" by simp
    then have pn: "(c - 1) div 2 < ?n" using par_le [of c] by simp
    have "key (xs ! ((c - 1) div 2)) \<le> key (xs ! c)"
      using h c cn unfolding is_heap_def heap_from_def by simp
    then show "key (?zs ! ((c - 1) div 2)) \<le> key (?zs ! c)"
      using cn pn by (simp add: nth_append)
  next
    fix c assume c: "0 < c \<and> c < length ?zs \<and> (c - 1) div 2 = ?n"
    then have False using par_less [of c] by simp
    then show "key (?zs ! ((?n - 1) div 2)) \<le> key (?zs ! c)" ..
  qed
  have nochild: "\<forall>c. 0 < c \<and> c < length ?zs \<and> (c - 1) div 2 = ?n \<longrightarrow> key (?zs ! ?n) \<le> key (?zs ! c)"
  proof (intro allI impI)
    fix c assume c: "0 < c \<and> c < length ?zs \<and> (c - 1) div 2 = ?n"
    then have False using par_less [of c] by simp
    then show "key (?zs ! ?n) \<le> key (?zs ! c)" ..
  qed
  have "heap_from key (siftdown_loop key ?zs 0 ?n (?zs ! ?n)) 0"
    by (rule siftdown_loop_heap [OF desc_zero _ hole nochild]) simp
  then show ?thesis by (simp add: heappush_def siftdown_def is_heap_def)
qed

lemma heap_from_half: "heap_from key xs (length xs div 2)"
  unfolding heap_from_def
proof (intro allI impI)
  fix c assume c: "0 < c \<and> c < length xs \<and> length xs div 2 \<le> (c - 1) div 2"
  then have False by presburger
  then show "key (xs ! ((c - 1) div 2)) \<le> key (xs ! c)" ..
qed

lemma fold_siftup_heap:
  "m \<le> length xs \<Longrightarrow> heap_from key xs m \<Longrightarrow>
   heap_from key (fold (\<lambda>i h. siftup key h i) (rev [0..<m]) xs) 0"
proof (induction m arbitrary: xs)
  case 0
  then show ?case by simp
next
  case (Suc m)
  have "heap_from key (siftup key xs m) m"
    using siftup_heap [OF Suc.prems(2)] Suc.prems(1) by simp
  then have "heap_from key (fold (\<lambda>i h. siftup key h i) (rev [0..<m]) (siftup key xs m)) 0"
    using Suc.IH [of "siftup key xs m"] Suc.prems(1) by simp
  then show ?case by simp
qed

lemma heapify_heap: "is_heap key (heapify key xs)"
  unfolding is_heap_def heapify_def
  by (rule fold_siftup_heap [OF _ heap_from_half]) simp

lemma mset_update_swap:
  assumes "p < length xs" "q < length xs" "p \<noteq> q"
  shows "mset (xs[p := xs ! q, q := v]) = mset (xs[p := v])"
proof -
  let ?ls = "xs[p := v]"
  have "mset (?ls[q := ?ls ! p, p := ?ls ! q]) = mset ?ls"
    by (rule mset_swap) (use assms in simp_all)
  moreover have "?ls[q := ?ls ! p, p := ?ls ! q] = xs[p := xs ! q, q := v]"
    using assms by (auto simp: list_eq_iff_nth_eq nth_list_update)
  ultimately show ?thesis by simp
qed

lemma mset_siftdown_loop:
  "pos < length xs \<Longrightarrow> mset (siftdown_loop key xs i pos v) = mset (xs[pos := v])"
proof (induction key xs i pos v rule: siftdown_loop.induct)
  case (1 key heap startpos pos newitem)
  let ?q = "(pos - 1) div 2"
  show ?case
  proof (cases "startpos < pos \<and> key newitem < key (heap ! ?q)")
    case True
    then have q: "?q < pos" using par_less [of pos] by simp
    have "mset (siftdown_loop key (heap[pos := heap ! ?q]) startpos ?q newitem)
          = mset (heap[pos := heap ! ?q, ?q := newitem])"
      using "1.IH" True q "1.prems" by simp
    also have "\<dots> = mset (heap[pos := newitem])"
      by (rule mset_update_swap) (use q "1.prems" in simp_all)
    finally show ?thesis using True by (subst siftdown_loop.simps) simp
  next
    case False
    then show ?thesis by (subst siftdown_loop.simps) auto
  qed
qed

lemma mset_siftup_loop:
  "pos < length xs \<Longrightarrow> n = length xs \<Longrightarrow> siftup_loop key xs pos n = (ys, leaf) \<Longrightarrow>
   leaf < length ys \<and> mset (ys[leaf := v]) = mset (xs[pos := v])"
proof (induction key xs pos n arbitrary: ys leaf rule: siftup_loop.induct)
  case (1 key heap pos endpos)
  show ?case
  proof (cases "2 * pos + 1 < endpos")
    case True
    let ?s = "smaller_child key heap pos endpos"
    have sc: "?s < endpos" "pos < ?s"
      using smaller_child_cases [OF True, of key heap] by auto
    have eq: "siftup_loop key (heap[pos := heap ! ?s]) ?s endpos = (ys, leaf)"
      using "1.prems"(3) True by (subst (asm) siftup_loop.simps) simp
    have "leaf < length ys \<and> mset (ys[leaf := v]) = mset (heap[pos := heap ! ?s, ?s := v])"
      by (rule "1.IH" [OF True _ _ eq]) (use sc "1.prems" in simp_all)
    moreover have "mset (heap[pos := heap ! ?s, ?s := v]) = mset (heap[pos := v])"
      by (rule mset_update_swap) (use sc "1.prems" in simp_all)
    ultimately show ?thesis by simp
  next
    case False
    then have "ys = heap" "leaf = pos"
      using "1.prems"(3) by (subst (asm) siftup_loop.simps, simp)+
    then show ?thesis using "1.prems" by simp
  qed
qed

lemma mset_siftup: "i < length xs \<Longrightarrow> mset (siftup key xs i) = mset xs"
proof -
  assume len: "i < length xs"
  obtain ys leaf where eq: "siftup_loop key xs i (length xs) = (ys, leaf)"
    by (cases "siftup_loop key xs i (length xs)")
  have r: "leaf < length ys" "mset (ys[leaf := xs ! i]) = mset (xs[i := xs ! i])"
    using mset_siftup_loop [OF len refl eq, of "xs ! i"] by auto
  have "mset (siftup key xs i) = mset (ys[leaf := xs ! i, leaf := ys[leaf := xs ! i] ! leaf])"
    using r(1) by (simp add: siftup_def eq siftdown_def mset_siftdown_loop)
  then show ?thesis using r by simp
qed

lemma mset_heappush: "mset (heappush key xs x) = add_mset x (mset xs)"
  by (simp add: heappush_def siftdown_def mset_siftdown_loop)

lemma mset_fold_siftup:
  "m \<le> length xs \<Longrightarrow> mset (fold (\<lambda>i h. siftup key h i) (rev [0..<m]) xs) = mset xs"
  by (induction m arbitrary: xs) (simp_all add: mset_siftup)

lemma mset_heapify: "mset (heapify key xs) = mset xs"
  by (simp add: heapify_def mset_fold_siftup)

lemma heappop_empty: "heappop key xs = Inl e \<longleftrightarrow> xs = [] \<and> e = IndexError"
  by (auto simp: heappop_def)

lemma heappop_snoc:
  "heappop key (zs @ [z]) =
     Inr (if zs = [] then (z, []) else (zs ! 0, siftup key (zs[0 := z]) 0))"
  by (simp add: heappop_def nth_append)

lemma heappop_result:
  assumes pop: "heappop key xs = Inr (x, ys)"
  shows "x = xs ! 0" and "mset xs = add_mset x (mset ys)"
proof -
  have ne: "xs \<noteq> []" using pop by (auto simp: heappop_def)
  then obtain zs z where xs: "xs = zs @ [z]" by (cases xs rule: rev_cases) auto
  show "x = xs ! 0"
    using pop unfolding xs heappop_snoc by (auto simp: nth_append split: if_splits)
  show "mset xs = add_mset x (mset ys)"
  proof (cases "zs = []")
    case True
    then show ?thesis using pop unfolding xs heappop_snoc by simp
  next
    case False
    then have r: "x = zs ! 0" "ys = siftup key (zs[0 := z]) 0"
      using pop unfolding xs heappop_snoc by simp_all
    have len: "0 < length zs" using False by simp
    have "mset ys = mset (zs[0 := z])"
      unfolding r using len by (simp add: mset_siftup)
    also have "\<dots> = add_mset z (mset zs - {#zs ! 0#})"
      using len by (simp add: mset_update)
    finally have "add_mset x (mset ys) = add_mset z (mset zs)"
      using r(1) len by simp
    then show ?thesis by (simp add: xs)
  qed
qed

lemma heappop_heap:
  assumes h: "is_heap key xs" and pop: "heappop key xs = Inr (x, ys)"
  shows "is_heap key ys"
proof -
  have ne: "xs \<noteq> []" using pop by (auto simp: heappop_def)
  then obtain zs z where xs: "xs = zs @ [z]" by (cases xs rule: rev_cases) auto
  show ?thesis
  proof (cases "zs = []")
    case True
    then have "ys = []" using pop unfolding xs heappop_snoc by simp
    then show ?thesis by (simp add: is_heap_def heap_from_def)
  next
    case False
    then have ys: "ys = siftup key (zs[0 := z]) 0"
      using pop unfolding xs heappop_snoc by simp
    have "heap_from key (zs[0 := z]) (Suc 0)"
      unfolding heap_from_def
    proof (intro allI impI)
      fix c assume c: "0 < c \<and> c < length (zs[0 := z]) \<and> Suc 0 \<le> (c - 1) div 2"
      then have cl: "c < length zs" "(c - 1) div 2 < length zs" "(c - 1) div 2 \<noteq> 0" "c \<noteq> 0"
        using par_le [of c] by auto
      have "0 < c \<and> c < length xs \<and> 0 \<le> (c - 1) div 2" using c cl xs by simp
      then have "key (xs ! ((c - 1) div 2)) \<le> key (xs ! c)"
        using h unfolding is_heap_def heap_from_def by blast
      then show "key (zs[0 := z] ! ((c - 1) div 2)) \<le> key (zs[0 := z] ! c)"
        using cl by (simp add: xs nth_append)
    qed
    then have "heap_from key (siftup key (zs[0 := z]) 0) 0"
      by (rule siftup_heap) (use False in simp)
    then show ?thesis by (simp add: ys is_heap_def)
  qed
qed

lemma heappop_min:
  assumes h: "is_heap key xs" and pop: "heappop key xs = Inr (x, ys)" and y: "y \<in> set xs"
  shows "key x \<le> key y"
proof -
  obtain j where "j < length xs" "y = xs ! j" using y by (auto simp: in_set_conv_nth)
  then show ?thesis using heap_root_min [OF h, of j] heappop_result(1) [OF pop] by simp
qed

lemma is_heap_cong:
  assumes eq: "\<forall>x \<in> set xs. key x = key' x" and h: "is_heap key xs"
  shows "is_heap key' xs"
  unfolding is_heap_def heap_from_def
proof (intro allI impI)
  fix c assume c: "0 < c \<and> c < length xs \<and> 0 \<le> (c - 1) div 2"
  have pl: "(c - 1) div 2 < length xs" using par_le [of c] c by simp
  have "key (xs ! ((c - 1) div 2)) \<le> key (xs ! c)"
    using h c unfolding is_heap_def heap_from_def by blast
  moreover have "key (xs ! ((c - 1) div 2)) = key' (xs ! ((c - 1) div 2))"
    using eq pl by simp
  moreover have "key (xs ! c) = key' (xs ! c)" using eq c by simp
  ultimately show "key' (xs ! ((c - 1) div 2)) \<le> key' (xs ! c)" by simp
qed

section \<open>Evaluation\<close>

lemmas heapq_defs = heappush_def heappop_def heapify_def siftup_def siftdown_def
  siftdown_loop.simps siftup_loop.simps smaller_child_def

lemmas model_defs = enqueue_patient_def dequeue_next_patient_def remove_patient_def
  update_patient_attributes_def apply_aging_def reheapify_queue_def untrack_def
  apply_updates_def age_node_def new_patient_def negated_copy_def calculate_priority_score_def
  classify_urgency_def get_default_def empty_analysis_def empty_travel_def py_round2_def round_half_even_def
  EMERGENCY_def TRAVEL_ETA_def CONSULTATION_TIME_def WAITING_TIME_def ARRIVAL_PROB_def
  score_of_def init_scheduler_def run_def peek_def Let_def

lemmas scenario_defs = booking_def patient_A_def patient_B_def patient_C_def patient_D_def
  patient_P_def enq_def

section \<open>Sets of the heapq results\<close>

lemma set_heappush: "set (heappush key xs x) = insert x (set xs)"
  using mset_heappush [of key xs x] by (metis set_mset_add_mset_insert set_mset_mset)

lemma distinct_heappush: "distinct (heappush key xs x) \<longleftrightarrow> distinct xs \<and> x \<notin> set xs"
proof -
  have "mset (heappush key xs x) = mset (x # xs)" by (simp add: mset_heappush)
  then have "distinct (heappush key xs x) = distinct (x # xs)" by (rule mset_eq_imp_distinct_iff)
  then show ?thesis by auto
qed

lemma set_heapify: "set (heapify key xs) = set xs"
  using mset_heapify [of key xs] by (rule mset_eq_setD)

lemma distinct_heapify: "distinct (heapify key xs) = distinct xs"
  using mset_heapify [of key xs] by (rule mset_eq_imp_distinct_iff)

lemma heappop_set:
  assumes "heappop key xs = Inr (x, ys)"
  shows "set xs = insert x (set ys)"
  using heappop_result(2) [OF assms] by (metis set_mset_add_mset_insert set_mset_mset)

lemma heappop_distinct:
  assumes "heappop key xs = Inr (x, ys)" and "distinct xs"
  shows "distinct ys \<and> x \<notin> set ys"
proof -
  have "mset xs = mset (x # ys)" using heappop_result(2) [OF assms(1)] by simp
  then have "distinct (x # ys)" using assms(2) mset_eq_imp_distinct_iff by blast
  then show ?thesis by simp
qed

lemma heappop_nonempty: "xs \<noteq> [] \<Longrightarrow> \<exists>x ys. heappop key xs = Inr (x, ys)"
  by (simp add: heappop_def)

section \<open>Nodes\<close>

lemma calculate_priority_score_cong:
  "emergency_level p = emergency_level q \<Longrightarrow> travel_eta_mins p = travel_eta_mins q \<Longrightarrow>
   predicted_consult_mins p = predicted_consult_mins q \<Longrightarrow>
   waiting_time_mins p = waiting_time_mins q \<Longrightarrow>
   arrival_probability p = arrival_probability q \<Longrightarrow>
   calculate_priority_score p = calculate_priority_score q"
  by (simp add: calculate_priority_score_def)

lemma calculate_priority_score_upd [simp]:
  "calculate_priority_score (p\<lparr>priority_score := v\<rparr>) = calculate_priority_score p"
  "calculate_priority_score (p\<lparr>last_priority_update := u\<rparr>) = calculate_priority_score p"
  by (simp_all add: calculate_priority_score_def)

lemma new_patient_fields:
  "token_number (new_patient pd tok nm c n1 n2) = tok"
  "waiting_time_mins (new_patient pd tok nm c n1 n2) = 0"
  "arrival_probability (new_patient pd tok nm c n1 n2) = 1"
  "priority_score (new_patient pd tok nm c n1 n2) =
     calculate_priority_score (new_patient pd tok nm c n1 n2)"
  "emergency_level (new_patient pd tok nm c n1 n2) =
     classify_urgency (get_default (urgency_score (get_default (pd_symptoms_analysis pd) empty_analysis)) 5)"
  by (simp_all add: new_patient_def Let_def calculate_priority_score_def)

lemma age_node_fields:
  "token_number (age_node w p) = token_number p"
  "emergency_level (age_node w p) = emergency_level p"
  "waiting_time_mins (age_node w p) = w"
  "priority_score (age_node w p) = calculate_priority_score (age_node w p)"
  by (simp_all add: age_node_def)

lemma negated_copy_fields:
  "emergency_level (negated_copy p) = emergency_level p"
  "token_number (negated_copy p) = token_number p"
  "priority_score (negated_copy p) = - priority_score p"
  by (simp_all add: negated_copy_def)

lemma apply_updates_fields:
  "token_number (apply_updates u p) = token_number p"
  "emergency_level (apply_updates u p) = emergency_level p"
  "waiting_time_mins (apply_updates u p) = waiting_time_mins p"
  by (simp_all add: apply_updates_def Let_def split: option.splits)

section \<open>The operations, case by case\<close>

lemma enqueue_patient_KeyError:
  "pd_token_number pd = None \<or> pd_name pd = None \<or> pd_contact_number pd = None \<Longrightarrow>
   enqueue_patient pd now1 now2 s = (Inl KeyError, s)"
  by (auto simp: enqueue_patient_def split: option.splits)

lemma enqueue_patient_critical:
  assumes "pd_token_number pd = Some tok" "pd_name pd = Some nm" "pd_contact_number pd = Some c"
    and "emergency_level (new_patient pd tok nm c now1 now2) = CRITICAL"
  shows "enqueue_patient pd now1 now2 s =
     (Inr (new_patient pd tok nm c now1 now2),
      s\<lparr>objs := objs s @ [new_patient pd tok nm c now1 now2,
                           negated_copy (new_patient pd tok nm c now1 now2)],
        emergency_queue :=
          heappush (score_of (objs s @ [new_patient pd tok nm c now1 now2,
                                         negated_copy (new_patient pd tok nm c now1 now2)]))
            (emergency_queue s) (Suc (length (objs s))),
        patient_map := AList.update tok (length (objs s)) (patient_map s),
        wait_tracker := AList.update tok 0 (wait_tracker s),
        total_enqueued := total_enqueued s + 1\<rparr>)"
  using assms by (simp add: enqueue_patient_def Let_def)

lemma enqueue_patient_main:
  assumes "pd_token_number pd = Some tok" "pd_name pd = Some nm" "pd_contact_number pd = Some c"
    and "emergency_level (new_patient pd tok nm c now1 now2) \<noteq> CRITICAL"
  shows "enqueue_patient pd now1 now2 s =
     (Inr (new_patient pd tok nm c now1 now2),
      s\<lparr>objs := objs s @ [new_patient pd tok nm c now1 now2],
        main_queue :=
          heappush (score_of (objs s @ [new_patient pd tok nm c now1 now2]))
            (main_queue s) (length (objs s)),
        patient_map := AList.update tok (length (objs s)) (patient_map s),
        wait_tracker := AList.update tok 0 (wait_tracker s),
        total_enqueued := total_enqueued s + 1\<rparr>)"
  using assms by (simp add: enqueue_patient_def Let_def)

lemma dequeue_emergency:
  assumes "emergency_queue s \<noteq> []"
  shows "\<exists>q. heappop (score_of (objs s)) (emergency_queue s) = Inr (emergency_queue s ! 0, q) \<and>
     dequeue_next_patient s =
       (Inr (Some ((objs s ! (emergency_queue s ! 0))
               \<lparr>priority_score := - priority_score (objs s ! (emergency_queue s ! 0))\<rparr>)),
        s\<lparr>objs := (objs s)[emergency_queue s ! 0 :=
                   (objs s ! (emergency_queue s ! 0))
                     \<lparr>priority_score := - priority_score (objs s ! (emergency_queue s ! 0))\<rparr>],
          emergency_queue := q,
          patient_map := AList.delete (token_number (objs s ! (emergency_queue s ! 0))) (patient_map s),
          wait_tracker := AList.delete (token_number (objs s ! (emergency_queue s ! 0))) (wait_tracker s),
          total_dequeued := total_dequeued s + 1\<rparr>)"
proof -
  obtain x q where pop: "heappop (score_of (objs s)) (emergency_queue s) = Inr (x, q)"
    using heappop_nonempty [OF assms] by blast
  have x: "x = emergency_queue s ! 0" using heappop_result(1) [OF pop] .
  show ?thesis
    using assms pop x by (simp add: dequeue_next_patient_def untrack_def Let_def)
qed

lemma dequeue_main:
  assumes "emergency_queue s = []" "main_queue s \<noteq> []"
  shows "\<exists>q. heappop (score_of (objs s)) (main_queue s) = Inr (main_queue s ! 0, q) \<and>
     dequeue_next_patient s =
       (Inr (Some (objs s ! (main_queue s ! 0))),
        s\<lparr>main_queue := q,
          patient_map := AList.delete (token_number (objs s ! (main_queue s ! 0))) (patient_map s),
          wait_tracker := AList.delete (token_number (objs s ! (main_queue s ! 0))) (wait_tracker s),
          total_dequeued := total_dequeued s + 1\<rparr>)"
proof -
  obtain x q where pop: "heappop (score_of (objs s)) (main_queue s) = Inr (x, q)"
    using heappop_nonempty [OF assms(2)] by blast
  have x: "x = main_queue s ! 0" using heappop_result(1) [OF pop] .
  show ?thesis
    using assms pop x by (simp add: dequeue_next_patient_def untrack_def Let_def)
qed

lemma dequeue_empty:
  "emergency_queue s = [] \<Longrightarrow> main_queue s = [] \<Longrightarrow> dequeue_next_patient s = (Inr None, s)"
  by (simp add: dequeue_next_patient_def)

section \<open>The invariants hold in every run\<close>

lemma is_heap_store:
  assumes "\<forall>r \<in> set q. priority_score (os' ! r) = priority_score (os ! r)"
    and "is_heap (score_of os) q"
  shows "is_heap (score_of os') q"
  by (rule is_heap_cong [OF _ assms(2)]) (use assms(1) in \<open>simp add: score_of_def\<close>)

lemma inv_emergency_mono:
  "set ns \<subseteq> set ns' \<Longrightarrow> inv_emergency ns s \<Longrightarrow> inv_emergency ns' s"
  unfolding inv_emergency_def by blast

lemma inv_emergencyD:
  assumes "inv_emergency ns s" "r \<in> set (emergency_queue s)"
  shows "r < length (objs s)"
    and "\<exists>P \<in> set ns. emergency_level P = CRITICAL \<and> objs s ! r = negated_copy P"
    and "emergency_level (objs s ! r) = CRITICAL"
proof -
  show "r < length (objs s)" using assms unfolding inv_emergency_def by blast
  show e: "\<exists>P \<in> set ns. emergency_level P = CRITICAL \<and> objs s ! r = negated_copy P"
    using assms unfolding inv_emergency_def by blast
  then show "emergency_level (objs s ! r) = CRITICAL"
    by (auto simp: negated_copy_fields)
qed

lemma inv_mapD:
  assumes "inv_map s" "map_of (patient_map s) tok = Some r"
  shows "r < length (objs s)" and "r \<notin> set (emergency_queue s)"
    and "token_number (objs s ! r) = tok"
    and "priority_score (objs s ! r) = calculate_priority_score (objs s ! r)"
    and "map_of (wait_tracker s) tok = Some (waiting_time_mins (objs s ! r))"
  using assms unfolding inv_map_def by blast+

lemma inv_mapI:
  assumes "\<And>tok r. map_of (patient_map s) tok = Some r \<Longrightarrow>
      r < length (objs s) \<and> r \<notin> set (emergency_queue s) \<and> token_number (objs s ! r) = tok \<and>
      priority_score (objs s ! r) = calculate_priority_score (objs s ! r) \<and>
      map_of (wait_tracker s) tok = Some (waiting_time_mins (objs s ! r))"
    and "distinct (map fst (patient_map s))"
  shows "inv_map s"
  using assms unfolding inv_map_def by blast

lemma sched_inv_init: "sched_inv [] init_scheduler"
  by (simp add: sched_inv_def inv_main_def inv_emergency_def inv_map_def init_scheduler_def
      is_heap_def heap_from_def)

subsection \<open>enqueue\_patient\<close>

lemma enqueue_critical_inv:
  assumes inv: "sched_inv ns s" and P: "P \<in> set ns'" and sub: "set ns \<subseteq> set ns'"
    and crit: "emergency_level P = CRITICAL"
    and tok: "token_number P = tok" and sc: "priority_score P = calculate_priority_score P"
    and w: "waiting_time_mins P = 0"
  shows "sched_inv ns'
     (s\<lparr>objs := objs s @ [P, negated_copy P],
        emergency_queue :=
          heappush (score_of (objs s @ [P, negated_copy P])) (emergency_queue s) (Suc (length (objs s))),
        patient_map := AList.update tok (length (objs s)) (patient_map s),
        wait_tracker := AList.update tok 0 (wait_tracker s),
        total_enqueued := total_enqueued s + 1\<rparr>)" (is "sched_inv ns' ?s'")
proof -
  let ?n = "length (objs s)"
  let ?os = "objs s @ [P, negated_copy P]"
  have im: "inv_main s" and ie: "inv_emergency ns s" and ip: "inv_map s"
    using inv by (simp_all add: sched_inv_def)
  have old: "?os ! r = objs s ! r" if "r < ?n" for r using that by (simp add: nth_append)
  have new: "?os ! ?n = P" "?os ! Suc ?n = negated_copy P" by (simp_all add: nth_append)
  have eqlt: "r < ?n" if "r \<in> set (emergency_queue s)" for r using inv_emergencyD(1) [OF ie that] .
  have "inv_main ?s'"
    using im old unfolding inv_main_def by auto
  moreover have "inv_emergency ns' ?s'"
    unfolding inv_emergency_def
  proof (intro conjI ballI)
    fix r assume "r \<in> set (emergency_queue ?s')"
    then have r: "r = Suc ?n \<or> r \<in> set (emergency_queue s)" by (simp add: set_heappush)
    then show "r < length (objs ?s')" by (auto dest!: eqlt)
    show "\<exists>Q \<in> set ns'. emergency_level Q = CRITICAL \<and> objs ?s' ! r = negated_copy Q"
    proof (cases "r = Suc ?n")
      case True
      then show ?thesis using P crit new by auto
    next
      case False
      then have re: "r \<in> set (emergency_queue s)" using r by simp
      then obtain Q where "Q \<in> set ns" "emergency_level Q = CRITICAL" "objs s ! r = negated_copy Q"
        using inv_emergencyD(2) [OF ie re] by blast
      then show ?thesis using sub old [OF eqlt [OF re]] by auto
    qed
  next
    have "distinct (emergency_queue s)" using ie by (simp add: inv_emergency_def)
    moreover have "Suc ?n \<notin> set (emergency_queue s)" using eqlt [of "Suc ?n"] by auto
    ultimately show "distinct (emergency_queue ?s')" by (simp add: distinct_heappush)
  next
    have "is_heap (score_of ?os) (emergency_queue s)"
      by (rule is_heap_store [of _ _ "objs s"]) (use ie old eqlt in \<open>auto simp: inv_emergency_def\<close>)
    then show "is_heap (score_of (objs ?s')) (emergency_queue ?s')"
      by (simp add: heappush_heap)
  qed
  moreover have "inv_map ?s'"
  proof (rule inv_mapI)
    show "distinct (map fst (patient_map ?s'))"
      using ip by (simp add: inv_map_def distinct_update)
    fix tok' r assume "map_of (patient_map ?s') tok' = Some r"
    then have m: "((map_of (patient_map s))(tok \<mapsto> ?n)) tok' = Some r"
      by (simp add: update_conv')
    show "r < length (objs ?s') \<and> r \<notin> set (emergency_queue ?s') \<and>
          token_number (objs ?s' ! r) = tok' \<and>
          priority_score (objs ?s' ! r) = calculate_priority_score (objs ?s' ! r) \<and>
          map_of (wait_tracker ?s') tok' = Some (waiting_time_mins (objs ?s' ! r))"
    proof (cases "tok' = tok")
      case True
      then have "r = ?n" using m by simp
      then show ?thesis using True new tok sc w eqlt by (auto simp: set_heappush update_conv')
    next
      case False
      then have mo: "map_of (patient_map s) tok' = Some r" using m by simp
      have rl: "r < ?n" using inv_mapD(1) [OF ip mo] .
      show ?thesis
        using False rl old [OF rl] inv_mapD(2,3,4,5) [OF ip mo]
        by (simp add: set_heappush update_conv')
    qed
  qed
  ultimately show ?thesis by (simp add: sched_inv_def)
qed

lemma enqueue_main_inv:
  assumes inv: "sched_inv ns s" and sub: "set ns \<subseteq> set ns'"
    and crit: "emergency_level P \<noteq> CRITICAL"
    and tok: "token_number P = tok" and sc: "priority_score P = calculate_priority_score P"
    and w: "waiting_time_mins P = 0"
  shows "sched_inv ns'
     (s\<lparr>objs := objs s @ [P],
        main_queue := heappush (score_of (objs s @ [P])) (main_queue s) (length (objs s)),
        patient_map := AList.update tok (length (objs s)) (patient_map s),
        wait_tracker := AList.update tok 0 (wait_tracker s),
        total_enqueued := total_enqueued s + 1\<rparr>)" (is "sched_inv ns' ?s'")
proof -
  let ?n = "length (objs s)"
  let ?os = "objs s @ [P]"
  have im: "inv_main s" and ie: "inv_emergency ns s" and ip: "inv_map s"
    using inv by (simp_all add: sched_inv_def)
  have old: "?os ! r = objs s ! r" if "r < ?n" for r using that by (simp add: nth_append)
  have new: "?os ! ?n = P" by simp
  have eqlt: "r < ?n" if "r \<in> set (emergency_queue s)" for r using inv_emergencyD(1) [OF ie that] .
  have "inv_main ?s'"
    using im old new crit unfolding inv_main_def by (auto simp: set_heappush)
  moreover have "inv_emergency ns' ?s'"
  proof -
    have "inv_emergency ns ?s'"
      unfolding inv_emergency_def
    proof (intro conjI ballI)
      fix r assume re: "r \<in> set (emergency_queue ?s')"
      then show "r < length (objs ?s')" by (auto dest!: eqlt)
      show "\<exists>Q \<in> set ns. emergency_level Q = CRITICAL \<and> objs ?s' ! r = negated_copy Q"
        using inv_emergencyD(2) [OF ie] re old eqlt by auto
    next
      show "distinct (emergency_queue ?s')" using ie by (simp add: inv_emergency_def)
    next
      have "is_heap (score_of ?os) (emergency_queue s)"
        by (rule is_heap_store [of _ _ "objs s"]) (use ie old eqlt in \<open>auto simp: inv_emergency_def\<close>)
      then show "is_heap (score_of (objs ?s')) (emergency_queue ?s')" by simp
    qed
    then show ?thesis using sub by (rule inv_emergency_mono [rotated])
  qed
  moreover have "inv_map ?s'"
  proof (rule inv_mapI)
    show "distinct (map fst (patient_map ?s'))"
      using ip by (simp add: inv_map_def distinct_update)
    fix tok' r assume "map_of (patient_map ?s') tok' = Some r"
    then have m: "((map_of (patient_map s))(tok \<mapsto> ?n)) tok' = Some r"
      by (simp add: update_conv')
    show "r < length (objs ?s') \<and> r \<notin> set (emergency_queue ?s') \<and>
          token_number (objs ?s' ! r) = tok' \<and>
          priority_score (objs ?s' ! r) = calculate_priority_score (objs ?s' ! r) \<and>
          map_of (wait_tracker ?s') tok' = Some (waiting_time_mins (objs ?s' ! r))"
    proof (cases "tok' = tok")
      case True
      then have "r = ?n" using m by simp
      then show ?thesis using True new tok sc w eqlt by (auto simp: update_conv')
    next
      case False
      then have mo: "map_of (patient_map s) tok' = Some r" using m by simp
      have rl: "r < ?n" using inv_mapD(1) [OF ip mo] .
      show ?thesis
        using False rl old [OF rl] inv_mapD(2,3,4,5) [OF ip mo]
        by (simp add: update_conv')
    qed
  qed
  ultimately show ?thesis by (simp add: sched_inv_def)
qed

lemma enqueued_nodes_append:
  "enqueued_nodes (xs @ ys) = enqueued_nodes xs @ enqueued_nodes ys"
  by (induction xs rule: enqueued_nodes.induct) (auto split: option.splits)

lemma enqueue_patient_inv:
  assumes inv: "sched_inv ns s"
  shows "sched_inv (ns @ enqueued_nodes [Enqueue pd now1 now2]) (snd (enqueue_patient pd now1 now2 s))"
proof (cases "pd_token_number pd = None \<or> pd_name pd = None \<or> pd_contact_number pd = None")
  case True
  then have "enqueued_nodes [Enqueue pd now1 now2] = []" by (auto split: option.splits)
  then show ?thesis using inv enqueue_patient_KeyError [OF True] by simp
next
  case False
  then obtain tok nm c where f: "pd_token_number pd = Some tok" "pd_name pd = Some nm"
    "pd_contact_number pd = Some c" by auto
  let ?P = "new_patient pd tok nm c now1 now2"
  have ns: "enqueued_nodes [Enqueue pd now1 now2] = [?P]" using f by simp
  show ?thesis
  proof (cases "emergency_level ?P = CRITICAL")
    case True
    show ?thesis
      unfolding enqueue_patient_critical [OF f True] ns snd_conv
      by (rule enqueue_critical_inv [OF inv _ _ True]) (auto simp: new_patient_fields)
  next
    case False
    show ?thesis
      unfolding enqueue_patient_main [OF f False] ns snd_conv
      by (rule enqueue_main_inv [OF inv _ False]) (auto simp: new_patient_fields)
  qed
qed

subsection \<open>dequeue\_next\_patient\<close>

lemma untracked_inv_map:
  assumes ip: "inv_map s"
    and os: "\<And>r. r \<notin> set (emergency_queue s) \<Longrightarrow> r < length (objs s) \<Longrightarrow> os ! r = objs s ! r"
    and len: "length os = length (objs s)"
    and q: "set q \<subseteq> set (emergency_queue s)"
  shows "inv_map (s\<lparr>objs := os, emergency_queue := q, main_queue := mq,
     patient_map := AList.delete t (patient_map s),
     wait_tracker := AList.delete t (wait_tracker s), total_dequeued := d\<rparr>)" (is "inv_map ?s'")
proof (rule inv_mapI)
  show "distinct (map fst (patient_map ?s'))"
    using ip by (simp add: inv_map_def distinct_delete)
  fix tok r assume "map_of (patient_map ?s') tok = Some r"
  then have m: "tok \<noteq> t" "map_of (patient_map s) tok = Some r"
    by (auto simp: delete_conv' split: if_splits)
  have "os ! r = objs s ! r" using os inv_mapD(1,2) [OF ip m(2)] by simp
  then show "r < length (objs ?s') \<and> r \<notin> set (emergency_queue ?s') \<and>
      token_number (objs ?s' ! r) = tok \<and>
      priority_score (objs ?s' ! r) = calculate_priority_score (objs ?s' ! r) \<and>
      map_of (wait_tracker ?s') tok = Some (waiting_time_mins (objs ?s' ! r))"
    using m(1) len q inv_mapD [OF ip m(2)] by (auto simp: delete_conv')
qed

lemma dequeue_next_patient_inv:
  assumes inv: "sched_inv ns s"
  shows "sched_inv ns (snd (dequeue_next_patient s))"
proof -
  have im: "inv_main s" and ie: "inv_emergency ns s" and ip: "inv_map s"
    using inv by (simp_all add: sched_inv_def)
  consider (emergency) "emergency_queue s \<noteq> []"
    | (main) "emergency_queue s = []" "main_queue s \<noteq> []"
    | (empty) "emergency_queue s = []" "main_queue s = []" by blast
  then show ?thesis
  proof cases
    case emergency
    let ?r = "emergency_queue s ! 0"
    let ?p = "(objs s ! ?r)\<lparr>priority_score := - priority_score (objs s ! ?r)\<rparr>"
    let ?os = "(objs s)[?r := ?p]"
    obtain q where pop: "heappop (score_of (objs s)) (emergency_queue s) = Inr (?r, q)"
      and deq: "snd (dequeue_next_patient s) =
        s\<lparr>objs := ?os, emergency_queue := q,
          patient_map := AList.delete (token_number (objs s ! ?r)) (patient_map s),
          wait_tracker := AList.delete (token_number (objs s ! ?r)) (wait_tracker s),
          total_dequeued := total_dequeued s + 1\<rparr>" (is "_ = ?s'")
      using dequeue_emergency [OF emergency] by auto
    have sq: "set (emergency_queue s) = insert ?r (set q)" using heappop_set [OF pop] .
    have dq: "distinct q" "?r \<notin> set q"
      using heappop_distinct [OF pop] ie by (auto simp: inv_emergency_def)
    have other: "?os ! r = objs s ! r" if "r \<noteq> ?r" for r using that by simp
    have lvl: "emergency_level (?os ! r) = emergency_level (objs s ! r)" if "r < length (objs s)" for r
      using that by (cases "r = ?r") simp_all
    have "inv_main ?s'"
      using im lvl unfolding inv_main_def by auto
    moreover have "inv_emergency ns ?s'"
      unfolding inv_emergency_def
    proof (intro conjI ballI)
      fix r assume "r \<in> set (emergency_queue ?s')"
      then have r: "r \<in> set (emergency_queue s)" "r \<noteq> ?r" using sq dq by auto
      show "r < length (objs ?s')" using inv_emergencyD(1) [OF ie r(1)] by simp
      show "\<exists>Q \<in> set ns. emergency_level Q = CRITICAL \<and> objs ?s' ! r = negated_copy Q"
        using inv_emergencyD(2) [OF ie r(1)] other [OF r(2)] by simp
    next
      show "distinct (emergency_queue ?s')" using dq by simp
    next
      have "is_heap (score_of (objs s)) q"
        using heappop_heap [OF _ pop] ie by (simp add: inv_emergency_def)
      moreover have "\<forall>r \<in> set q. priority_score (?os ! r) = priority_score (objs s ! r)"
      proof
        fix r assume "r \<in> set q"
        then have "r \<noteq> ?r" using dq by auto
        then show "priority_score (?os ! r) = priority_score (objs s ! r)"
          using other by simp
      qed
      ultimately have "is_heap (score_of ?os) q"
        by (rule is_heap_store [rotated])
      then show "is_heap (score_of (objs ?s')) (emergency_queue ?s')" by simp
    qed
    moreover have "inv_map ?s'"
    proof -
      have "inv_map (s\<lparr>objs := ?os, emergency_queue := q, main_queue := main_queue s,
         patient_map := AList.delete (token_number (objs s ! ?r)) (patient_map s),
         wait_tracker := AList.delete (token_number (objs s ! ?r)) (wait_tracker s),
         total_dequeued := total_dequeued s + 1\<rparr>)"
        by (rule untracked_inv_map [OF ip]) (use sq other in auto)
      then show ?thesis by simp
    qed
    ultimately show ?thesis by (simp add: sched_inv_def deq)
  next
    case main
    let ?r = "main_queue s ! 0"
    obtain q where pop: "heappop (score_of (objs s)) (main_queue s) = Inr (?r, q)"
      and deq: "snd (dequeue_next_patient s) =
        s\<lparr>main_queue := q,
          patient_map := AList.delete (token_number (objs s ! ?r)) (patient_map s),
          wait_tracker := AList.delete (token_number (objs s ! ?r)) (wait_tracker s),
          total_dequeued := total_dequeued s + 1\<rparr>" (is "_ = ?s'")
      using dequeue_main [OF main] by auto
    have sq: "set (main_queue s) = insert ?r (set q)" using heappop_set [OF pop] .
    have "inv_main ?s'"
      using im sq unfolding inv_main_def by auto
    moreover have "inv_emergency ns ?s'"
      using ie unfolding inv_emergency_def by simp
    moreover have "inv_map ?s'"
    proof -
      have "inv_map (s\<lparr>objs := objs s, emergency_queue := emergency_queue s, main_queue := q,
         patient_map := AList.delete (token_number (objs s ! ?r)) (patient_map s),
         wait_tracker := AList.delete (token_number (objs s ! ?r)) (wait_tracker s),
         total_dequeued := total_dequeued s + 1\<rparr>)"
        by (rule untracked_inv_map [OF ip]) auto
      then show ?thesis by simp
    qed
    ultimately show ?thesis by (simp add: sched_inv_def deq)
  next
    case empty
    then show ?thesis using inv dequeue_empty by simp
  qed
qed

subsection \<open>remove\_patient\<close>

lemma remove_patient_inv:
  assumes inv: "sched_inv ns s"
  shows "sched_inv ns (snd (remove_patient tok s))"
proof (cases "map_of (patient_map s) tok")
  case None
  then show ?thesis using inv by (simp add: remove_patient_def)
next
  case (Some r)
  have im: "inv_main s" and ie: "inv_emergency ns s" and ip: "inv_map s"
    using inv by (simp_all add: sched_inv_def)
  let ?keep = "filter (\<lambda>p. token_number (objs s ! p) \<noteq> tok)"
  let ?eq = "if emergency_level (objs s ! r) = CRITICAL
             then heapify (score_of (objs s)) (?keep (emergency_queue s)) else emergency_queue s"
  let ?mq = "if emergency_level (objs s ! r) = CRITICAL
             then main_queue s else heapify (score_of (objs s)) (?keep (main_queue s))"
  let ?s' = "s\<lparr>objs := objs s, emergency_queue := ?eq, main_queue := ?mq,
     patient_map := AList.delete tok (patient_map s),
     wait_tracker := AList.delete tok (wait_tracker s), total_dequeued := total_dequeued s + 1\<rparr>"
  have rm: "snd (remove_patient tok s) = ?s'"
    using Some by (simp add: remove_patient_def untrack_def Let_def)
  have se: "set ?eq \<subseteq> set (emergency_queue s)" and sm: "set ?mq \<subseteq> set (main_queue s)"
    by (auto simp: set_heapify)
  have "inv_main ?s'"
    using im sm unfolding inv_main_def by auto
  moreover have "inv_emergency ns ?s'"
    unfolding inv_emergency_def
  proof (intro conjI ballI)
    fix x assume "x \<in> set (emergency_queue ?s')"
    then have x: "x \<in> set (emergency_queue s)" using se by auto
    show "x < length (objs ?s')" using inv_emergencyD(1) [OF ie x] by simp
    show "\<exists>Q \<in> set ns. emergency_level Q = CRITICAL \<and> objs ?s' ! x = negated_copy Q"
      using inv_emergencyD(2) [OF ie x] by simp
  next
    show "distinct (emergency_queue ?s')"
      using ie by (simp add: inv_emergency_def distinct_heapify)
  next
    show "is_heap (score_of (objs ?s')) (emergency_queue ?s')"
      using ie by (simp add: inv_emergency_def heapify_heap)
  qed
  moreover have "inv_map ?s'"
    by (rule untracked_inv_map [OF ip _ _ se]) auto
  ultimately show ?thesis by (simp add: sched_inv_def rm)
qed

subsection \<open>Rescoring: update\_patient\_attributes and apply\_aging\<close>

lemma rescored_inv:
  assumes inv: "sched_inv ns s"
    and len: "length os = length (objs s)"
    and keep: "\<And>r. r \<in> set (emergency_queue s) \<Longrightarrow> os ! r = objs s ! r"
    and lvl: "\<And>r. r < length (objs s) \<Longrightarrow> emergency_level (os ! r) = emergency_level (objs s ! r)"
    and tracked: "\<And>tok r. map_of (patient_map s) tok = Some r \<Longrightarrow>
       token_number (os ! r) = tok \<and> priority_score (os ! r) = calculate_priority_score (os ! r) \<and>
       map_of wt tok = Some (waiting_time_mins (os ! r))"
    and mq: "set mq = set (main_queue s)"
    and eq: "eq = emergency_queue s \<or> eq = heapify (score_of os) (emergency_queue s)"
  shows "sched_inv ns (s\<lparr>objs := os, wait_tracker := wt, main_queue := mq,
           emergency_queue := eq, reorder_count := n\<rparr>)" (is "sched_inv ns ?s'")
proof -
  have im: "inv_main s" and ie: "inv_emergency ns s" and ip: "inv_map s"
    using inv by (simp_all add: sched_inv_def)
  have seq: "set eq = set (emergency_queue s)" using eq by (auto simp: set_heapify)
  have "inv_main ?s'"
    using im mq len lvl unfolding inv_main_def by auto
  moreover have "inv_emergency ns ?s'"
    unfolding inv_emergency_def
  proof (intro conjI ballI)
    fix r assume "r \<in> set (emergency_queue ?s')"
    then have r: "r \<in> set (emergency_queue s)" using seq by simp
    show "r < length (objs ?s')" using inv_emergencyD(1) [OF ie r] len by simp
    show "\<exists>Q \<in> set ns. emergency_level Q = CRITICAL \<and> objs ?s' ! r = negated_copy Q"
      using inv_emergencyD(2) [OF ie r] keep [OF r] by simp
  next
    show "distinct (emergency_queue ?s')"
      using ie eq by (auto simp: inv_emergency_def distinct_heapify)
  next
    have "is_heap (score_of os) (emergency_queue s)"
      by (rule is_heap_store [of _ _ "objs s"]) (use ie keep in \<open>auto simp: inv_emergency_def\<close>)
    then show "is_heap (score_of (objs ?s')) (emergency_queue ?s')"
      using eq by (auto simp: heapify_heap)
  qed
  moreover have "inv_map ?s'"
  proof (rule inv_mapI)
    show "distinct (map fst (patient_map ?s'))" using ip by (simp add: inv_map_def)
    fix tok r assume "map_of (patient_map ?s') tok = Some r"
    then have m: "map_of (patient_map s) tok = Some r" by simp
    show "r < length (objs ?s') \<and> r \<notin> set (emergency_queue ?s') \<and>
      token_number (objs ?s' ! r) = tok \<and>
      priority_score (objs ?s' ! r) = calculate_priority_score (objs ?s' ! r) \<and>
      map_of (wait_tracker ?s') tok = Some (waiting_time_mins (objs ?s' ! r))"
      using inv_mapD(1,2) [OF ip m] tracked [OF m] len seq by simp
  qed
  ultimately show ?thesis by (simp add: sched_inv_def)
qed

lemma update_patient_attributes_inv:
  assumes inv: "sched_inv ns s"
  shows "sched_inv ns (snd (update_patient_attributes tok u now s))"
proof (cases "map_of (patient_map s) tok")
  case None
  then show ?thesis using inv by (simp add: update_patient_attributes_def)
next
  case (Some r)
  have ip: "inv_map s" using inv by (simp add: sched_inv_def)
  let ?p = "apply_updates u (objs s ! r)"
  let ?p' = "?p\<lparr>priority_score := calculate_priority_score ?p, last_priority_update := now\<rparr>"
  let ?os = "(objs s)[r := ?p']"
  have up: "snd (update_patient_attributes tok u now s) =
    s\<lparr>objs := ?os, wait_tracker := wait_tracker s,
      main_queue := heapify (score_of ?os) (main_queue s),
      emergency_queue := heapify (score_of ?os) (emergency_queue s),
      reorder_count := reorder_count s + 1\<rparr>"
    using Some by (simp add: update_patient_attributes_def reheapify_queue_def Let_def)
  have rl: "r < length (objs s)" and re: "r \<notin> set (emergency_queue s)"
    using inv_mapD(1,2) [OF ip Some] by auto
  show ?thesis
    unfolding up
  proof (rule rescored_inv [OF inv])
    show "length ?os = length (objs s)" by simp
    show "?os ! x = objs s ! x" if "x \<in> set (emergency_queue s)" for x
      using that re by (cases "x = r") auto
    show "emergency_level (?os ! x) = emergency_level (objs s ! x)" if "x < length (objs s)" for x
      using that by (cases "x = r") (simp_all add: apply_updates_fields)
    show "token_number (?os ! x) = t \<and> priority_score (?os ! x) = calculate_priority_score (?os ! x) \<and>
       map_of (wait_tracker s) t = Some (waiting_time_mins (?os ! x))"
      if m: "map_of (patient_map s) t = Some x" for t x
    proof (cases "x = r")
      case True
      then show ?thesis
        using rl inv_mapD(3,5) [OF ip m] by (simp add: apply_updates_fields)
    next
      case False
      then show ?thesis using inv_mapD(3,4,5) [OF ip m] by simp
    qed
    show "set (heapify (score_of ?os) (main_queue s)) = set (main_queue s)"
      by (rule set_heapify)
    show "heapify (score_of ?os) (emergency_queue s) = emergency_queue s \<or>
      heapify (score_of ?os) (emergency_queue s) = heapify (score_of ?os) (emergency_queue s)"
      by simp
  qed
qed

lemma aging_loop_spec:
  assumes "distinct (map fst items)" "distinct (map snd items)"
    and "\<forall>(tok, r) \<in> set items. r < length os \<and> map_of wt tok = Some (waiting_time_mins (os ! r))"
  shows "\<exists>os' wt' b'. aging_loop e items os wt b = (None, os', wt', b') \<and>
     length os' = length os \<and>
     (\<forall>r. r \<notin> snd ` set items \<longrightarrow> os' ! r = os ! r) \<and>
     (\<forall>(tok, r) \<in> set items. os' ! r = age_node (fadd (waiting_time_mins (os ! r)) e) (os ! r) \<and>
        map_of wt' tok = Some (fadd (waiting_time_mins (os ! r)) e)) \<and>
     (\<forall>tok. tok \<notin> fst ` set items \<longrightarrow> map_of wt' tok = map_of wt tok)"
  using assms
proof (induction items arbitrary: os wt b)
  case Nil
  then show ?case by simp
next
  case (Cons item items)
  obtain tok r where item: "item = (tok, r)" by (cases item)
  let ?w = "waiting_time_mins (os ! r)"
  let ?os1 = "os[r := age_node (fadd ?w e) (os ! r)]"
  let ?wt1 = "AList.update tok (fadd ?w e) wt"
  let ?b1 = "if priority_score (age_node (fadd ?w e) (os ! r)) < priority_score (os ! r) then b + 1 else b"
  have wt: "map_of wt tok = Some ?w" and rl: "r < length os" using Cons.prems(3) item by auto
  have fresh: "tok \<notin> fst ` set items" "r \<notin> snd ` set items"
    using Cons.prems(1,2) item by auto
  have step: "aging_loop e (item # items) os wt b = aging_loop e items ?os1 ?wt1 ?b1"
    using wt item by simp
  have pre: "\<forall>(t, x) \<in> set items. x < length ?os1 \<and> map_of ?wt1 t = Some (waiting_time_mins (?os1 ! x))"
  proof (clarify, intro conjI)
    fix t x assume tx: "(t, x) \<in> set items"
    then have "t \<noteq> tok" "x \<noteq> r" using fresh by force+
    moreover have "x < length os \<and> map_of wt t = Some (waiting_time_mins (os ! x))"
      using Cons.prems(3) tx by auto
    ultimately show "x < length ?os1" "map_of ?wt1 t = Some (waiting_time_mins (?os1 ! x))"
      by (simp_all add: update_conv')
  qed
  obtain os' wt' b' where r: "aging_loop e items ?os1 ?wt1 ?b1 = (None, os', wt', b')"
    "length os' = length ?os1"
    "\<forall>x. x \<notin> snd ` set items \<longrightarrow> os' ! x = ?os1 ! x"
    "\<forall>(t, x) \<in> set items. os' ! x = age_node (fadd (waiting_time_mins (?os1 ! x)) e) (?os1 ! x) \<and>
        map_of wt' t = Some (fadd (waiting_time_mins (?os1 ! x)) e)"
    "\<forall>t. t \<notin> fst ` set items \<longrightarrow> map_of wt' t = map_of ?wt1 t"
    using Cons.IH [OF _ _ pre, of ?b1] Cons.prems(1,2) by auto
  have a: "length os' = length os" using r(2) by simp
  have b: "\<forall>x. x \<notin> snd ` set (item # items) \<longrightarrow> os' ! x = os ! x"
    using r(3) item by auto
  have c: "\<forall>(t, x) \<in> set (item # items). os' ! x = age_node (fadd (waiting_time_mins (os ! x)) e) (os ! x) \<and>
        map_of wt' t = Some (fadd (waiting_time_mins (os ! x)) e)"
  proof (clarify, intro conjI)
    fix t x assume tx: "(t, x) \<in> set (item # items)"
    show "os' ! x = age_node (fadd (waiting_time_mins (os ! x)) e) (os ! x)"
    proof (cases "(t, x) = (tok, r)")
      case True
      then show ?thesis using r(3) fresh(2) rl by simp
    next
      case False
      then have in_items: "(t, x) \<in> set items" using tx item by auto
      then have "x \<noteq> r" using fresh by force
      then show ?thesis using r(4) in_items by auto
    qed
    show "map_of wt' t = Some (fadd (waiting_time_mins (os ! x)) e)"
    proof (cases "(t, x) = (tok, r)")
      case True
      then show ?thesis using r(5) fresh(1) by (simp add: update_conv')
    next
      case False
      then have in_items: "(t, x) \<in> set items" using tx item by auto
      then have "x \<noteq> r" using fresh by force
      then show ?thesis using r(4) in_items by auto
    qed
  qed
  have d: "\<forall>t. t \<notin> fst ` set (item # items) \<longrightarrow> map_of wt' t = map_of wt t"
    using r(5) item by (auto simp: update_conv')
  show ?case
    unfolding step using r(1) a b c d by blast
qed

lemma inv_map_items:
  assumes ip: "inv_map s"
  shows "distinct (map snd (patient_map s))"
    and "(tok, r) \<in> set (patient_map s) \<longleftrightarrow> map_of (patient_map s) tok = Some r"
proof -
  have df: "distinct (map fst (patient_map s))" using ip by (simp add: inv_map_def)
  show iff: "(tok, r) \<in> set (patient_map s) \<longleftrightarrow> map_of (patient_map s) tok = Some r" for tok r
    using df by (auto simp: map_of_eq_Some_iff)
  have "inj_on snd (set (patient_map s))"
  proof (rule inj_onI)
    fix a b assume ab: "a \<in> set (patient_map s)" "b \<in> set (patient_map s)" "snd a = snd b"
    obtain t1 r1 t2 r2 where eq: "a = (t1, r1)" "b = (t2, r2)" by (cases a, cases b)
    have "map_of (patient_map s) t1 = Some r1" "map_of (patient_map s) t2 = Some r1"
      using ab iff [of t1 r1] iff [of t2 r2] eq by simp_all
    then have "t1 = t2" using inv_mapD(3) [OF ip] by metis
    then show "a = b" using ab(3) eq by simp
  qed
  moreover have "distinct (patient_map s)" using df by (simp add: distinct_map)
  ultimately show "distinct (map snd (patient_map s))" by (simp add: distinct_map)
qed

lemma apply_aging_spec:
  assumes inv: "sched_inv ns s"
  shows "\<exists>os wt mq eq n. apply_aging e s =
       (None, s\<lparr>objs := os, wait_tracker := wt, main_queue := mq, emergency_queue := eq,
                 reorder_count := n\<rparr>) \<and>
     length os = length (objs s) \<and>
     (\<forall>r. r \<notin> snd ` set (patient_map s) \<longrightarrow> os ! r = objs s ! r) \<and>
     (\<forall>tok r. map_of (patient_map s) tok = Some r \<longrightarrow>
        os ! r = age_node (fadd (waiting_time_mins (objs s ! r)) e) (objs s ! r) \<and>
        map_of wt tok = Some (fadd (waiting_time_mins (objs s ! r)) e)) \<and>
     set mq = set (main_queue s) \<and>
     (eq = emergency_queue s \<or> eq = heapify (score_of os) (emergency_queue s))"
proof -
  have ip: "inv_map s" using inv by (simp add: sched_inv_def)
  have pre: "\<forall>(tok, r) \<in> set (patient_map s). r < length (objs s) \<and>
      map_of (wait_tracker s) tok = Some (waiting_time_mins (objs s ! r))"
    using inv_mapD(1,5) [OF ip] inv_map_items(2) [OF ip] by auto
  obtain os wt b where loop: "aging_loop e (patient_map s) (objs s) (wait_tracker s) 0 = (None, os, wt, b)"
    and len: "length os = length (objs s)"
    and rest: "\<forall>r. r \<notin> snd ` set (patient_map s) \<longrightarrow> os ! r = objs s ! r"
    and aged: "\<forall>(tok, r) \<in> set (patient_map s).
        os ! r = age_node (fadd (waiting_time_mins (objs s ! r)) e) (objs s ! r) \<and>
        map_of wt tok = Some (fadd (waiting_time_mins (objs s ! r)) e)"
    using aging_loop_spec [OF _ inv_map_items(1) [OF ip] pre, of e 0] ip
    by (auto simp: inv_map_def)
  have aged': "\<forall>tok r. map_of (patient_map s) tok = Some r \<longrightarrow>
        os ! r = age_node (fadd (waiting_time_mins (objs s ! r)) e) (objs s ! r) \<and>
        map_of wt tok = Some (fadd (waiting_time_mins (objs s ! r)) e)"
    using aged inv_map_items(2) [OF ip] by auto
  show ?thesis
  proof (cases "0 < b")
    case True
    have "apply_aging e s =
      (None, s\<lparr>objs := os, wait_tracker := wt,
         main_queue := heapify (score_of os) (main_queue s),
         emergency_queue := heapify (score_of os) (emergency_queue s),
         reorder_count := reorder_count s + 1\<rparr>)"
      using True by (simp add: apply_aging_def loop reheapify_queue_def)
    then show ?thesis
      using len rest aged'
      by (intro exI [of _ os] exI [of _ wt] exI [of _ "heapify (score_of os) (main_queue s)"]
          exI [of _ "heapify (score_of os) (emergency_queue s)"] exI [of _ "reorder_count s + 1"])
        (simp add: set_heapify)
  next
    case False
    have "apply_aging e s =
      (None, s\<lparr>objs := os, wait_tracker := wt, main_queue := main_queue s,
         emergency_queue := emergency_queue s, reorder_count := reorder_count s\<rparr>)"
      using False by (simp add: apply_aging_def loop)
    then show ?thesis
      using len rest aged'
      by (intro exI [of _ os] exI [of _ wt] exI [of _ "main_queue s"]
          exI [of _ "emergency_queue s"] exI [of _ "reorder_count s"]) simp
  qed
qed

lemma apply_aging_inv:
  assumes inv: "sched_inv ns s"
  shows "sched_inv ns (snd (apply_aging e s))"
proof -
  have ie: "inv_emergency ns s" and ip: "inv_map s" using inv by (simp_all add: sched_inv_def)
  obtain os wt mq eq n where ag: "apply_aging e s =
       (None, s\<lparr>objs := os, wait_tracker := wt, main_queue := mq, emergency_queue := eq,
                 reorder_count := n\<rparr>)"
    and len: "length os = length (objs s)"
    and rest: "\<forall>r. r \<notin> snd ` set (patient_map s) \<longrightarrow> os ! r = objs s ! r"
    and aged: "\<forall>tok r. map_of (patient_map s) tok = Some r \<longrightarrow>
        os ! r = age_node (fadd (waiting_time_mins (objs s ! r)) e) (objs s ! r) \<and>
        map_of wt tok = Some (fadd (waiting_time_mins (objs s ! r)) e)"
    and mq: "set mq = set (main_queue s)"
    and eq: "eq = emergency_queue s \<or> eq = heapify (score_of os) (emergency_queue s)"
    using apply_aging_spec [OF inv, of e] by blast
  have tracked: "r \<in> snd ` set (patient_map s) \<longleftrightarrow> (\<exists>tok. map_of (patient_map s) tok = Some r)" for r
    using inv_map_items(2) [OF ip] by force
  show ?thesis
    unfolding ag snd_conv
  proof (rule rescored_inv [OF inv len _ _ _ mq eq])
    show "os ! r = objs s ! r" if "r \<in> set (emergency_queue s)" for r
    proof -
      have "r \<notin> snd ` set (patient_map s)"
        using that inv_mapD(2) [OF ip] tracked by blast
      then show ?thesis using rest by simp
    qed
    show "emergency_level (os ! r) = emergency_level (objs s ! r)" if "r < length (objs s)" for r
    proof (cases "r \<in> snd ` set (patient_map s)")
      case True
      then obtain tok where "map_of (patient_map s) tok = Some r" using tracked by blast
      then show ?thesis using aged by (simp add: age_node_fields)
    next
      case False
      then show ?thesis using rest by simp
    qed
    show "token_number (os ! r) = tok \<and> priority_score (os ! r) = calculate_priority_score (os ! r) \<and>
       map_of wt tok = Some (waiting_time_mins (os ! r))"
      if m: "map_of (patient_map s) tok = Some r" for tok r
      using aged m inv_mapD(3) [OF ip m] by (simp add: age_node_fields)
  qed
qed

subsection \<open>Every run\<close>

lemma apply_op_inv:
  "sched_inv ns s \<Longrightarrow> sched_inv (ns @ enqueued_nodes [op]) (apply_op op s)"
proof (cases op)
  case (Enqueue pd n1 n2)
  assume "sched_inv ns s"
  then show ?thesis unfolding Enqueue apply_op.simps by (rule enqueue_patient_inv)
qed (simp_all add: dequeue_next_patient_inv remove_patient_inv update_patient_attributes_inv
      apply_aging_inv)

lemma run_snoc: "run (ops @ [op]) = apply_op op (run ops)"
  by (simp add: run_def)

lemma run_inv: "sched_inv (enqueued_nodes ops) (run ops)"
proof (induction ops rule: rev_induct)
  case Nil
  then show ?case using sched_inv_init by (simp add: run_def)
next
  case (snoc op ops)
  then show ?case
    unfolding run_snoc enqueued_nodes_append by (rule apply_op_inv)
qed

section \<open>The score under rounding\<close>

lemma py_round2_mono: "x \<le> y \<Longrightarrow> py_round2 x \<le> py_round2 y"
proof -
  assume "x \<le> y"
  then have "round_half_even (x * 100) \<le> round_half_even (y * 100)"
    by (intro round_half_even_mono) simp
  then have "of_int (round_half_even (x * 100)) / 100 \<le> (of_int (round_half_even (y * 100)) / 100 :: real)"
    by (simp add: divide_right_mono)
  then show ?thesis unfolding py_round2_def by (rule fl_mono)
qed

lemma age_node_twice: "age_node w2 (age_node w1 p) = age_node w2 p"
  by (simp add: age_node_def calculate_priority_score_def)

lemma fadd_mono: "a \<le> b \<Longrightarrow> c \<le> d \<Longrightarrow> fadd a c \<le> fadd b d"
  unfolding fadd_def by (rule fl_mono) simp

lemma level_value_range: "0 \<le> level_value l \<and> level_value l \<le> 2"
  by (cases l) simp_all

lemma calculate_priority_score_waiting_mono:
  assumes "w1 \<le> w2"
  shows "calculate_priority_score (p\<lparr>waiting_time_mins := w2\<rparr>)
       \<le> calculate_priority_score (p\<lparr>waiting_time_mins := w1\<rparr>)"
proof -
  have "WAITING_TIME * w2 \<le> WAITING_TIME * w1" using assms by (simp add: WAITING_TIME_def)
  then have "fmul WAITING_TIME w2 \<le> fmul WAITING_TIME w1" unfolding fmul_def by (rule fl_mono)
  then show ?thesis
    unfolding calculate_priority_score_def
    by (intro py_round2_mono fadd_mono) simp_all
qed

text \<open>
  The stored score against the exact value of the formula, for fields of magnitude at most
  \<open>10\<^sup>6\<close>: each of the ten roundings to a double is off by at most \<open>10\<^sup>7 / 2\<^sup>5\<^sup>3\<close>, the rounding
  to two decimals by at most 0.005.
\<close>

lemma fl_error_7:
  assumes "- 10000000 \<le> x" "x \<le> 10000000"
  shows "fl x - x \<le> 10000000 / 9007199254740992" "x - fl x \<le> 10000000 / 9007199254740992"
proof -
  have "\<bar>x\<bar> \<le> 10000000" using assms by (simp add: abs_le_iff)
  then have "\<bar>fl x - x\<bar> \<le> 10000000 / 9007199254740992" using fl_error [of x 10000000] by simp
  then show "fl x - x \<le> 10000000 / 9007199254740992" "x - fl x \<le> 10000000 / 9007199254740992"
    by (simp_all only: abs_le_iff) simp
qed

lemma calculate_priority_score_error:
  assumes t: "\<bar>travel_eta_mins p\<bar> \<le> 1000000"
    and c: "\<bar>of_int (predicted_consult_mins p) :: real\<bar> \<le> 1000000"
    and w: "\<bar>waiting_time_mins p\<bar> \<le> 1000000"
    and a: "\<bar>arrival_probability p\<bar> \<le> 1000000"
  shows "\<bar>calculate_priority_score p - score_formula p\<bar> \<le> 5001 / 1000000"
proof -
  define eps :: real where "eps = 10000000 / 9007199254740992"
  define L :: real where "L = of_int (level_value (emergency_level p))"
  define T where "T = travel_eta_mins p"
  define C :: real where "C = of_int (predicted_consult_mins p)"
  define Wt where "Wt = waiting_time_mins p"
  define A where "A = arrival_probability p"
  define x1 where "x1 = fl (5 * L)"
  define x2 where "x2 = fl (2 * T)"
  define x3 where "x3 = fl (1 * C)"
  define x4 where "x4 = fl (- 3 * Wt)"
  define q where "q = fl (1 - A)"
  define y5 where "y5 = 3 / 2 * q"
  define x5 where "x5 = fl y5"
  define s1 where "s1 = fl (x1 + x2)"
  define s2 where "s2 = fl (s1 + x3)"
  define s3 where "s3 = fl (s2 + x4)"
  define s4 where "s4 = fl (s3 + x5)"
  define R :: real where "R = of_int (round_half_even (s4 * 100)) / 100"
  define SA where "SA = 3 / 2 * (1 - A)"
  define S where "S = 5 * L + 2 * T + C - 3 * Wt + SA"
  have y5: "2 * y5 = 3 * q" by (simp add: y5_def)
  have SA: "2 * SA = 3 * (1 - A)" by (simp add: SA_def)
  have eps: "0 < eps" "eps \<le> 1 / 100000000" by (simp_all add: eps_def)
  have L: "0 \<le> L" "L \<le> 2" using level_value_range [of "emergency_level p"] by (simp_all add: L_def)
  have T: "- 1000000 \<le> T" "T \<le> 1000000" using t by (simp_all add: T_def abs_le_iff)
  have C: "- 1000000 \<le> C" "C \<le> 1000000" using c by (simp_all add: C_def abs_le_iff)
  have Wt: "- 1000000 \<le> Wt" "Wt \<le> 1000000" using w by (simp_all add: Wt_def abs_le_iff)
  have A: "- 1000000 \<le> A" "A \<le> 1000000" using a by (simp_all add: A_def abs_le_iff)
  have e1: "x1 - 5 * L \<le> eps" "5 * L - x1 \<le> eps"
    unfolding x1_def eps_def using L by (intro fl_error_7; argo)+
  have e2: "x2 - 2 * T \<le> eps" "2 * T - x2 \<le> eps"
    unfolding x2_def eps_def using T by (intro fl_error_7; argo)+
  have e3: "x3 - 1 * C \<le> eps" "1 * C - x3 \<le> eps"
    unfolding x3_def eps_def using C by (intro fl_error_7; argo)+
  have e4: "x4 - (- 3 * Wt) \<le> eps" "- 3 * Wt - x4 \<le> eps"
    unfolding x4_def eps_def using Wt by (intro fl_error_7; argo)+
  have eq: "q - (1 - A) \<le> eps" "1 - A - q \<le> eps"
    unfolding q_def eps_def using A by (intro fl_error_7; argo)+
  have e5: "x5 - y5 \<le> eps" "y5 - x5 \<le> eps"
    unfolding x5_def eps_def using A eq eps y5 by (intro fl_error_7; argo)+
  have g5: "2 * (x5 - SA) \<le> 5 * eps" "2 * (SA - x5) \<le> 5 * eps"
  proof -
    show "2 * (x5 - SA) \<le> 5 * eps" using e5 eq y5 SA by argo
    show "2 * (SA - x5) \<le> 5 * eps" using e5 eq y5 SA by argo
  qed
  have f1: "s1 - (x1 + x2) \<le> eps" "x1 + x2 - s1 \<le> eps"
    unfolding s1_def eps_def using L T e1 e2 eps by (intro fl_error_7; argo)+
  have h1: "s1 - (5 * L + 2 * T) \<le> 3 * eps" "5 * L + 2 * T - s1 \<le> 3 * eps"
  proof -
    show "s1 - (5 * L + 2 * T) \<le> 3 * eps" using f1 e1 e2 by argo
    show "5 * L + 2 * T - s1 \<le> 3 * eps" using f1 e1 e2 by argo
  qed
  have f2: "s2 - (s1 + x3) \<le> eps" "s1 + x3 - s2 \<le> eps"
    unfolding s2_def eps_def using L T C h1 e3 eps by (intro fl_error_7; argo)+
  have h2: "s2 - (5 * L + 2 * T + C) \<le> 5 * eps" "5 * L + 2 * T + C - s2 \<le> 5 * eps"
  proof -
    show "s2 - (5 * L + 2 * T + C) \<le> 5 * eps" using f2 h1 e3 by argo
    show "5 * L + 2 * T + C - s2 \<le> 5 * eps" using f2 h1 e3 by argo
  qed
  have f3: "s3 - (s2 + x4) \<le> eps" "s2 + x4 - s3 \<le> eps"
    unfolding s3_def eps_def using L T C Wt h2 e4 eps by (intro fl_error_7; argo)+
  have h3: "s3 - (5 * L + 2 * T + C - 3 * Wt) \<le> 7 * eps"
    "5 * L + 2 * T + C - 3 * Wt - s3 \<le> 7 * eps"
  proof -
    show "s3 - (5 * L + 2 * T + C - 3 * Wt) \<le> 7 * eps" using f3 h2 e4 by argo
    show "5 * L + 2 * T + C - 3 * Wt - s3 \<le> 7 * eps" using f3 h2 e4 by argo
  qed
  have f4: "s4 - (s3 + x5) \<le> eps" "s3 + x5 - s4 \<le> eps"
    unfolding s4_def eps_def using L T C Wt A SA h3 g5 eps by (intro fl_error_7; argo)+
  have h4: "2 * (s4 - S) \<le> 21 * eps" "2 * (S - s4) \<le> 21 * eps"
  proof -
    show "2 * (s4 - S) \<le> 21 * eps" unfolding S_def using f4 h3 g5 by argo
    show "2 * (S - s4) \<le> 21 * eps" unfolding S_def using f4 h3 g5 by argo
  qed
  have r1: "R - s4 \<le> 5 / 1000" "s4 - R \<le> 5 / 1000"
  proof -
    define k :: real where "k = of_int (round_half_even (s4 * 100))"
    have "\<bar>k - s4 * 100\<bar> \<le> 1 / 2" unfolding k_def by (rule round_half_even_error)
    then have "k - s4 * 100 \<le> 1 / 2" "s4 * 100 - k \<le> 1 / 2" by (simp_all only: abs_le_iff) simp
    moreover have "R = k / 100" by (simp add: R_def k_def)
    ultimately show "R - s4 \<le> 5 / 1000" "s4 - R \<le> 5 / 1000" by simp_all
  qed
  have Sb: "- 7500012 \<le> S" "S \<le> 7500012"
  proof -
    show "- 7500012 \<le> S" unfolding S_def using L T C Wt A SA by argo
    show "S \<le> 7500012" unfolding S_def using L T C Wt A SA by argo
  qed
  have r2: "fl R - R \<le> eps" "R - fl R \<le> eps"
    unfolding eps_def using Sb h4 r1 eps by (intro fl_error_7; argo)+
  have calc: "calculate_priority_score p = fl R"
    by (simp add: calculate_priority_score_def py_round2_def fadd_def fmul_def fsub_def
        EMERGENCY_def TRAVEL_ETA_def CONSULTATION_TIME_def WAITING_TIME_def ARRIVAL_PROB_def
        R_def s4_def s3_def s2_def s1_def x5_def y5_def q_def x4_def x3_def x2_def x1_def
        L_def T_def C_def Wt_def A_def)
  have form: "score_formula p = S"
    by (simp add: score_formula_def S_def SA_def L_def T_def C_def Wt_def A_def)
  have "fl R - S \<le> 5001 / 1000000" using h4 r1 r2 eps by argo
  moreover have "- (fl R - S) \<le> 5001 / 1000000" using h4 r1 r2 eps by argo
  ultimately have "\<bar>fl R - S\<bar> \<le> 5001 / 1000000" by (simp only: abs_le_iff)
  then show ?thesis unfolding calc form .
qed

text \<open>With whole numbers of minutes no operation of the score rounds.\<close>

lemma py_round2_whole:
  assumes "x \<in> \<int>" "\<bar>x\<bar> \<le> 10000000"
  shows "py_round2 x = x"
proof -
  obtain n where n: "x = of_int n" using assms(1) by (auto elim: Ints_cases)
  have "x * 100 = of_int (n * 100)" by (simp add: n)
  then have "round_half_even (x * 100) = n * 100" by (simp only: round_half_even_of_int)
  then have "of_int (round_half_even (x * 100)) / 100 = x" by (simp add: n)
  then show ?thesis unfolding py_round2_def using fl_whole [OF assms] by simp
qed

lemma calculate_priority_score_whole:
  assumes t: "travel_eta_mins p \<in> \<int>" "\<bar>travel_eta_mins p\<bar> \<le> 1000000"
    and c: "\<bar>of_int (predicted_consult_mins p) :: real\<bar> \<le> 1000000"
    and w: "waiting_time_mins p \<in> \<int>" "\<bar>waiting_time_mins p\<bar> \<le> 1000000"
    and a: "arrival_probability p = 1"
  shows "calculate_priority_score p = score_formula p"
proof -
  define L :: real where "L = of_int (level_value (emergency_level p))"
  define T where "T = travel_eta_mins p"
  define C :: real where "C = of_int (predicted_consult_mins p)"
  define Wt where "Wt = waiting_time_mins p"
  have Z: "L \<in> \<int>" "T \<in> \<int>" "C \<in> \<int>" "Wt \<in> \<int>"
    using t(1) w(1) by (simp_all add: L_def T_def C_def Wt_def)
  have L: "0 \<le> L" "L \<le> 2" using level_value_range [of "emergency_level p"] by (simp_all add: L_def)
  have T: "- 1000000 \<le> T" "T \<le> 1000000" using t(2) by (simp_all add: T_def abs_le_iff)
  have C: "- 1000000 \<le> C" "C \<le> 1000000" using c by (simp_all add: C_def abs_le_iff)
  have Wt: "- 1000000 \<le> Wt" "Wt \<le> 1000000" using w(2) by (simp_all add: Wt_def abs_le_iff)
  have x1: "fl (5 * L) = 5 * L" using Z L by (intro fl_whole) (simp_all add: abs_le_iff)
  have x2: "fl (2 * T) = 2 * T" using Z T by (intro fl_whole) (simp_all add: abs_le_iff)
  have x3: "fl C = C" using Z C by (intro fl_whole) (simp_all add: abs_le_iff)
  have x4: "fl (- (3 * Wt)) = - (3 * Wt)" using Z Wt by (intro fl_whole) (simp_all add: abs_le_iff)
  have s1: "fl (5 * L + 2 * T) = 5 * L + 2 * T"
    using Z L T by (intro fl_whole) (simp_all add: abs_le_iff)
  have s2: "fl (5 * L + 2 * T + C) = 5 * L + 2 * T + C"
    using Z L T C by (intro fl_whole) (simp_all add: abs_le_iff)
  have s3: "fl (5 * L + 2 * T + C - 3 * Wt) = 5 * L + 2 * T + C - 3 * Wt"
    using Z L T C Wt by (intro fl_whole) (simp_all add: abs_le_iff)
  have r: "py_round2 (5 * L + 2 * T + C - 3 * Wt) = 5 * L + 2 * T + C - 3 * Wt"
    using Z L T C Wt by (intro py_round2_whole) (simp_all add: abs_le_iff)
  have "calculate_priority_score p = py_round2 (5 * L + 2 * T + C - 3 * Wt)"
    by (simp add: calculate_priority_score_def fadd_def fmul_def fsub_def a
        EMERGENCY_def TRAVEL_ETA_def CONSULTATION_TIME_def WAITING_TIME_def ARRIVAL_PROB_def
        L_def [symmetric] T_def [symmetric] C_def [symmetric] Wt_def [symmetric]
        x1 x2 x3 x4 s1 s2 s3)
  moreover have "score_formula p = 5 * L + 2 * T + C - 3 * Wt"
    by (simp add: score_formula_def a L_def T_def C_def Wt_def)
  ultimately show ?thesis using r by simp
qed

section \<open>One aging tick on a tracked record\<close>

lemma age_node_fields2:
  "waiting_time_mins (age_node w p) = w"
  "priority_score (age_node w p) = calculate_priority_score (p\<lparr>waiting_time_mins := w\<rparr>)"
  "calculate_priority_score (age_node w p) = calculate_priority_score (p\<lparr>waiting_time_mins := w\<rparr>)"
  by (simp_all add: age_node_def calculate_priority_score_def)

lemma apply_aging_tracked:
  assumes ok: "tracking_ok s" and m: "map_of (patient_map s) tok = Some r"
  shows "fst (apply_aging e s) = None"
    and "patient_map (snd (apply_aging e s)) = patient_map s"
    and "objs (snd (apply_aging e s)) ! r =
           age_node (fadd (waiting_time_mins (objs s ! r)) e) (objs s ! r)"
    and "tracking_ok (snd (apply_aging e s))"
proof -
  have df: "distinct (map fst (patient_map s))" and ds: "distinct (map snd (patient_map s))"
    and pre: "\<forall>(tok, r) \<in> set (patient_map s). r < length (objs s) \<and>
      map_of (wait_tracker s) tok = Some (waiting_time_mins (objs s ! r))"
    using ok by (simp_all add: tracking_ok_def)
  obtain os wt b where loop: "aging_loop e (patient_map s) (objs s) (wait_tracker s) 0 = (None, os, wt, b)"
    and len: "length os = length (objs s)"
    and aged: "\<forall>(tok, r) \<in> set (patient_map s).
        os ! r = age_node (fadd (waiting_time_mins (objs s ! r)) e) (objs s ! r) \<and>
        map_of wt tok = Some (fadd (waiting_time_mins (objs s ! r)) e)"
    using aging_loop_spec [OF df ds pre, of e 0] by auto
  define s' where "s' = snd (apply_aging e s)"
  have s': "objs s' = os" "wait_tracker s' = wt" "patient_map s' = patient_map s"
    "fst (apply_aging e s) = None"
    by (cases "0 < b"; simp add: s'_def apply_aging_def loop reheapify_queue_def)+
  have mem: "(tok, r) \<in> set (patient_map s)" using m by (rule map_of_SomeD)
  show "fst (apply_aging e s) = None" by (rule s'(4))
  show "patient_map (snd (apply_aging e s)) = patient_map s" using s'(3) by (simp add: s'_def)
  show "objs (snd (apply_aging e s)) ! r =
      age_node (fadd (waiting_time_mins (objs s ! r)) e) (objs s ! r)"
    using aged mem s'(1) by (auto simp: s'_def)
  have "\<forall>(tok, r) \<in> set (patient_map s').
        r < length (objs s') \<and>
        map_of (wait_tracker s') tok = Some (waiting_time_mins (objs s' ! r))"
    unfolding s' using aged pre len by (auto simp: age_node_fields2)
  then show "tracking_ok (snd (apply_aging e s))"
    using df ds s'(3) by (simp add: tracking_ok_def s'_def)
qed

lemma run_tracking_ok: "tracking_ok (run ops)"
proof -
  have ip: "inv_map (run ops)" using run_inv [of ops] by (simp add: sched_inv_def)
  have "\<forall>(tok, r) \<in> set (patient_map (run ops)). r < length (objs (run ops)) \<and>
      map_of (wait_tracker (run ops)) tok = Some (waiting_time_mins (objs (run ops) ! r))"
    using inv_mapD(1,5) [OF ip] inv_map_items(2) [OF ip] by auto
  then show ?thesis
    using ip inv_map_items(1) [OF ip] by (simp add: tracking_ok_def inv_map_def)
qed


lemma fl_fadd: "fl (fadd x y) = fadd x y"
  by (simp add: fadd_def)

lemma fadd_ticks: "fadd 0 5 = 5" "fadd 5 5 = 10" "fadd 10 5 = 15"
  by code_simp+

lemma score_formula_waiting:
  "score_formula (p\<lparr>waiting_time_mins := w\<rparr>) = score_formula p + 3 * waiting_time_mins p - 3 * w"
  by (simp add: score_formula_def)

section \<open>The search returns\<close>

lemma visit_rank_le: "n \<in> set visited \<Longrightarrow> visit_rank visited n \<le> length visited"
  by (simp add: visit_rank_def length_dropWhile_le)

lemma visit_rank_Cons:
  assumes "c \<notin> set visited"
  shows "p \<in> set visited \<Longrightarrow> visit_rank (c # visited) p = visit_rank visited p"
    and "visit_rank visited n \<le> visit_rank (c # visited) n"
proof -
  show "visit_rank (c # visited) p = visit_rank visited p" if "p \<in> set visited"
    using that assms by (auto simp: visit_rank_def)
  show "visit_rank visited n \<le> visit_rank (c # visited) n"
    using assms by (auto simp: visit_rank_def length_dropWhile_le le_SucI)
qed

lemma came_from_ok_visit:
  assumes "came_from_ok visited came_from" "c \<notin> set visited"
  shows "came_from_ok (c # visited) came_from"
  unfolding came_from_ok_def
proof (intro allI impI)
  fix n p assume "map_of came_from n = Some (Some p)"
  then have p: "p \<in> set visited" "visit_rank visited p < visit_rank visited n"
    using assms(1) unfolding came_from_ok_def by blast+
  have "visit_rank (c # visited) p = visit_rank visited p"
    using visit_rank_Cons(1) [OF assms(2) p(1)] .
  moreover have "visit_rank visited n \<le> visit_rank (c # visited) n"
    using visit_rank_Cons(2) [OF assms(2)] .
  ultimately show "p \<in> set (c # visited) \<and> visit_rank (c # visited) p < visit_rank (c # visited) n"
    using p by simp
qed

lemma expand_neighbors_ok:
  assumes "came_from_ok visited came_from" "(lat current, lon current) \<in> set visited"
    and "expand_neighbors multiplier current goal visited neighbors (frontier, g_scores, came_from)
           = (frontier', g_scores', came_from')"
  shows "came_from_ok visited came_from'"
  using assms
proof (induction neighbors arbitrary: frontier g_scores came_from)
  case Nil
  then show ?case by simp
next
  case (Cons nb rest)
  obtain nlat nlon t where nb: "nb = (nlat, nlon, t)" by (cases nb)
  let ?cf = "AList.update (nlat, nlon) (Some (lat current, lon current)) came_from"
  have upd: "came_from_ok visited ?cf" if fresh: "(nlat, nlon) \<notin> set visited"
    unfolding came_from_ok_def
  proof (intro allI impI)
    fix n p assume m: "map_of ?cf n = Some (Some p)"
    show "p \<in> set visited \<and> visit_rank visited p < visit_rank visited n"
    proof (cases "n = (nlat, nlon)")
      case True
      then have "p = (lat current, lon current)" using m by (simp add: update_conv')
      moreover have "visit_rank visited n = Suc (length visited)"
        using True fresh by (simp add: visit_rank_def)
      ultimately show ?thesis
        using Cons.prems(2) visit_rank_le [of "(lat current, lon current)" visited] by simp
    next
      case False
      then have "map_of came_from n = Some (Some p)" using m by (simp add: update_conv')
      then show ?thesis using Cons.prems(1) unfolding came_from_ok_def by blast
    qed
  qed
  show ?case
    using Cons.prems(3) Cons.IH [OF _ Cons.prems(2)] Cons.prems(1) upd
    unfolding nb by (auto split: if_splits)
qed

lemma reconstruct_loop_returns:
  assumes "came_from_ok visited came_from"
  shows "\<exists>p. reconstruct_loop came_from current walked = Some p"
proof (induction "visit_rank visited current" arbitrary: current walked rule: less_induct)
  case less
  show ?case
  proof (cases "\<exists>previous. map_of came_from current = Some (Some previous)")
    case True
    then obtain previous where m: "map_of came_from current = Some (Some previous)" by blast
    then have "visit_rank visited previous < visit_rank visited current"
      using assms unfolding came_from_ok_def by blast
    then obtain p where "reconstruct_loop came_from previous (walked @ [previous]) = Some p"
      using less by blast
    then show ?thesis using m by (subst reconstruct_loop.simps) simp
  next
    case False
    then have "reconstruct_loop came_from current walked = Some walked"
      by (subst reconstruct_loop.simps) (auto split: option.splits)
    then show ?thesis by blast
  qed
qed

lemma reconstruct_path_returns:
  "came_from_ok visited came_from \<Longrightarrow> \<exists>p. reconstruct_path came_from current = Some p"
  using reconstruct_loop_returns [of visited came_from current "[current]"]
  by (auto simp: reconstruct_path_def)

lemma astar_loop_returns:
  "came_from_ok visited came_from \<Longrightarrow>
   \<exists>r. astar_loop graph multiplier start goal frontier visited g_scores came_from iters = Some r \<and>
     (\<forall>x. r = Some x \<longrightarrow> path_found x \<and> eta_method x = ''astar_graph'')"
proof (induction graph multiplier start goal frontier visited g_scores came_from iters
    rule: astar_loop.induct)
  case (1 graph multiplier start goal frontier visited g_scores came_from iters)
  show ?case
  proof (cases "frontier \<noteq> [] \<and> iters < max_iterations")
    case False
    then show ?thesis by (subst astar_loop.simps) auto
  next
    case True
    then obtain current frontier' where pop: "heappop f_score frontier = Inr (current, frontier')"
      using heappop_nonempty [of frontier f_score] by blast
    let ?node = "(lat current, lon current)"
    show ?thesis
    proof (cases "haversine_distance (lat current) (lon current) (fst goal) (snd goal) < 1 / 2")
      case near: True
      obtain p where "reconstruct_path came_from ?node = Some p"
        using reconstruct_path_returns [OF "1.prems"] by blast
      then show ?thesis using True pop near by (subst astar_loop.simps) simp
    next
      case far: False
      show ?thesis
      proof (cases "?node \<in> set visited")
        case seen: True
        have "\<exists>r. astar_loop graph multiplier start goal frontier' visited g_scores came_from (iters + 1) = Some r \<and>
            (\<forall>x. r = Some x \<longrightarrow> path_found x \<and> eta_method x = ''astar_graph'')"
          using "1.IH"(1) [OF True pop refl far seen "1.prems"] .
        then show ?thesis using True pop far seen by (subst astar_loop.simps) simp
      next
        case new: False
        obtain frontier'' g_scores' came_from' where
          ex: "expand_neighbors multiplier current goal (?node # visited)
                 (get_neighbors graph (lat current) (lon current)) (frontier', g_scores, came_from)
               = (frontier'', g_scores', came_from')"
          by (cases "expand_neighbors multiplier current goal (?node # visited)
                 (get_neighbors graph (lat current) (lon current)) (frontier', g_scores, came_from)")
        have ok: "came_from_ok (?node # visited) came_from'"
          by (rule expand_neighbors_ok [OF came_from_ok_visit [OF "1.prems" new] _ ex]) simp
        have "\<exists>r. astar_loop graph multiplier start goal frontier'' (?node # visited) g_scores'
              came_from' (iters + 1) = Some r \<and>
            (\<forall>x. r = Some x \<longrightarrow> path_found x \<and> eta_method x = ''astar_graph'')"
          using "1.IH"(2) [OF True pop refl far new ex [symmetric] refl ok] .
        then show ?thesis using True pop far new ex by (subst astar_loop.simps) simp
      qed
    qed
  qed
qed

lemma astar_search_returns:
  "\<exists>r. astar_search graph current_hour start_lat start_lon goal_lat goal_lon = Some r \<and>
     (\<forall>x. r = Some x \<longrightarrow> path_found x \<and> eta_method x = ''astar_graph'')"
proof -
  have "came_from_ok [] [((start_lat, start_lon), None)]"
    by (simp add: came_from_ok_def)
  then show ?thesis
    using astar_loop_returns by (simp add: astar_search_def)
qed

section \<open>The haversine term\<close>

lemma haversine_a_range:
  "0 \<le> haversine_a lat1 lon1 lat2 lon2 \<and> haversine_a lat1 lon1 lat2 lon2 \<le> 1"
proof -
  define x where "x = radians lat1"
  define y where "y = radians lat2"
  define s where "s = (sin (radians (lon2 - lon1) / 2))\<^sup>2"
  define c where "c = cos (y - x)"
  define e where "e = cos (x + y)"
  have d: "radians (lat2 - lat1) = y - x"
    by (simp add: radians_def x_def y_def algebra_simps diff_divide_distrib)
  have "cos (2 * ((y - x) / 2)) = 1 - 2 * (sin ((y - x) / 2))\<^sup>2"
    by (rule cos_double_sin)
  moreover have "2 * ((y - x) / 2) = y - x" by simp
  ultimately have "c = 1 - 2 * (sin ((y - x) / 2))\<^sup>2" by (simp only: c_def)
  then have h: "(sin ((y - x) / 2))\<^sup>2 = (1 - c) / 2" by simp
  have p: "cos x * cos y = (c + e) / 2"
    using cos_times_cos [of x y] by (simp add: c_def e_def cos_diff cos_add)
  have a: "haversine_a lat1 lon1 lat2 lon2 = (1 - c) / 2 + (c + e) / 2 * s"
    unfolding haversine_a_def d by (simp add: x_def [symmetric] y_def [symmetric] s_def [symmetric] h p)
  have s: "0 \<le> s" "s \<le> 1"
  proof -
    let ?z = "radians (lon2 - lon1) / 2"
    have "(sin ?z)\<^sup>2 + (cos ?z)\<^sup>2 = 1" by (rule sin_cos_squared_add)
    moreover have "0 \<le> (cos ?z)\<^sup>2" by (rule zero_le_power2)
    ultimately show "s \<le> 1" unfolding s_def by linarith
    show "0 \<le> s" unfolding s_def by (rule zero_le_power2)
  qed
  have c: "- 1 \<le> c" "c \<le> 1" and e: "- 1 \<le> e" "e \<le> 1" by (simp_all add: c_def e_def)
  have 1: "0 \<le> (1 - s) * (1 - c)" using s c by simp
  have 2: "0 \<le> (1 - s) * (1 + c)" using s c by simp
  have 3: "0 \<le> s * (1 + e)" using s e by simp
  have 4: "0 \<le> s * (1 - e)" using s e by simp
  have "2 * haversine_a lat1 lon1 lat2 lon2 = (1 - s) * (1 - c) + s * (1 + e)"
    unfolding a by (simp add: field_simps)
  moreover have "2 - 2 * haversine_a lat1 lon1 lat2 lon2 = (1 - s) * (1 + c) + s * (1 - e)"
    unfolding a by (simp add: field_simps)
  ultimately show ?thesis using 1 2 3 4 by linarith
qed

lemma haversine_a_antipodal: "haversine_a la lo (- la) (lo - 180) = 1"
proof -
  have "radians (- la - la) / 2 = - radians la" by (simp add: radians_def)
  moreover have "radians (lo - 180 - lo) / 2 = - (pi / 2)" by (simp add: radians_def)
  moreover have "radians (- la) = - radians la" by (simp add: radians_def)
  ultimately show ?thesis
    by (simp add: haversine_a_def power2_eq_square [symmetric])
qed

section \<open>Bounds of sine, cosine, arctangent and pi\<close>

lemma cos_lower2:
  fixes x :: real
  assumes x: "0 \<le> x"
  shows "1 - x\<^sup>2 / 2 \<le> cos x"
proof -
  have "(\<lambda>t. cos t + t\<^sup>2 / 2) 0 \<le> (\<lambda>t. cos t + t\<^sup>2 / 2) x"
  proof (rule DERIV_nonneg_imp_nondecreasing [OF x])
    fix t :: real
    assume t: "0 \<le> t" "t \<le> x"
    have "((\<lambda>t. cos t + t\<^sup>2 / 2) has_real_derivative (- sin t + t)) (at t)"
      by (auto intro!: derivative_eq_intros)
    moreover have "0 \<le> - sin t + t" using sin_x_le_x [OF t(1)] by simp
    ultimately show "\<exists>y. ((\<lambda>t. cos t + t\<^sup>2 / 2) has_real_derivative y) (at t) \<and> 0 \<le> y"
      by blast
  qed
  then show ?thesis by simp
qed

lemma sin_lower3:
  fixes x :: real
  assumes x: "0 \<le> x"
  shows "x - x ^ 3 / 6 \<le> sin x"
proof -
  have "(\<lambda>t. sin t - t + t ^ 3 / 6) 0 \<le> (\<lambda>t. sin t - t + t ^ 3 / 6) x"
  proof (rule DERIV_nonneg_imp_nondecreasing [OF x])
    fix t :: real
    assume t: "0 \<le> t" "t \<le> x"
    have "((\<lambda>t. sin t - t + t ^ 3 / 6) has_real_derivative (cos t - 1 + t\<^sup>2 / 2)) (at t)"
      by (auto intro!: derivative_eq_intros)
    moreover have "0 \<le> cos t - 1 + t\<^sup>2 / 2" using cos_lower2 [OF t(1)] by simp
    ultimately show "\<exists>y. ((\<lambda>t. sin t - t + t ^ 3 / 6) has_real_derivative y) (at t) \<and> 0 \<le> y"
      by blast
  qed
  then show ?thesis by simp
qed

lemma cos_upper4:
  fixes x :: real
  assumes x: "0 \<le> x"
  shows "cos x \<le> 1 - x\<^sup>2 / 2 + x ^ 4 / 24"
proof -
  have "(\<lambda>t. t ^ 4 / 24 - t\<^sup>2 / 2 - cos t) 0 \<le> (\<lambda>t. t ^ 4 / 24 - t\<^sup>2 / 2 - cos t) x"
  proof (rule DERIV_nonneg_imp_nondecreasing [OF x])
    fix t :: real
    assume t: "0 \<le> t" "t \<le> x"
    have "((\<lambda>t. t ^ 4 / 24 - t\<^sup>2 / 2 - cos t) has_real_derivative (t ^ 3 / 6 - t + sin t)) (at t)"
      by (auto intro!: derivative_eq_intros)
    moreover have "0 \<le> t ^ 3 / 6 - t + sin t" using sin_lower3 [OF t(1)] by simp
    ultimately show "\<exists>y. ((\<lambda>t. t ^ 4 / 24 - t\<^sup>2 / 2 - cos t) has_real_derivative y) (at t) \<and> 0 \<le> y"
      by blast
  qed
  then show ?thesis by simp
qed

lemma sin_upper5:
  fixes x :: real
  assumes x: "0 \<le> x"
  shows "sin x \<le> x - x ^ 3 / 6 + x ^ 5 / 120"
proof -
  have "(\<lambda>t. t ^ 5 / 120 - t ^ 3 / 6 + t - sin t) 0 \<le> (\<lambda>t. t ^ 5 / 120 - t ^ 3 / 6 + t - sin t) x"
  proof (rule DERIV_nonneg_imp_nondecreasing [OF x])
    fix t :: real
    assume t: "0 \<le> t" "t \<le> x"
    have "((\<lambda>t. t ^ 5 / 120 - t ^ 3 / 6 + t - sin t) has_real_derivative
        (t ^ 4 / 24 - t\<^sup>2 / 2 + 1 - cos t)) (at t)"
      by (auto intro!: derivative_eq_intros)
    moreover have "0 \<le> t ^ 4 / 24 - t\<^sup>2 / 2 + 1 - cos t" using cos_upper4 [OF t(1)] by simp
    ultimately show "\<exists>y. ((\<lambda>t. t ^ 5 / 120 - t ^ 3 / 6 + t - sin t) has_real_derivative y) (at t) \<and> 0 \<le> y"
      by blast
  qed
  then show ?thesis by simp
qed

lemma cos_lower6:
  fixes x :: real
  assumes x: "0 \<le> x"
  shows "1 - x\<^sup>2 / 2 + x ^ 4 / 24 - x ^ 6 / 720 \<le> cos x"
proof -
  have "(\<lambda>t. cos t + t\<^sup>2 / 2 - t ^ 4 / 24 + t ^ 6 / 720) 0 \<le> (\<lambda>t. cos t + t\<^sup>2 / 2 - t ^ 4 / 24 + t ^ 6 / 720) x"
  proof (rule DERIV_nonneg_imp_nondecreasing [OF x])
    fix t :: real
    assume t: "0 \<le> t" "t \<le> x"
    have "((\<lambda>t. cos t + t\<^sup>2 / 2 - t ^ 4 / 24 + t ^ 6 / 720) has_real_derivative
        (- sin t + t - t ^ 3 / 6 + t ^ 5 / 120)) (at t)"
      by (auto intro!: derivative_eq_intros)
    moreover have "0 \<le> - sin t + t - t ^ 3 / 6 + t ^ 5 / 120" using sin_upper5 [OF t(1)] by simp
    ultimately show "\<exists>y. ((\<lambda>t. cos t + t\<^sup>2 / 2 - t ^ 4 / 24 + t ^ 6 / 720) has_real_derivative y) (at t) \<and> 0 \<le> y"
      by blast
  qed
  then show ?thesis by simp
qed

lemma pi_bounds: "31 / 10 < pi" "pi < 32 / 10"
proof -
  have "1 - (155 / 100)\<^sup>2 / 2 + (155 / 100) ^ 4 / 24 - (155 / 100) ^ 6 / 720 \<le> cos (155 / 100 :: real)"
    by (rule cos_lower6) simp
  moreover have "(0::real) < 1 - (155 / 100)\<^sup>2 / 2 + (155 / 100) ^ 4 / 24 - (155 / 100) ^ 6 / 720"
    by (simp add: power_divide)
  ultimately have lo: "0 < cos (155 / 100 :: real)" by linarith
  have "cos (16 / 10 :: real) \<le> 1 - (16 / 10)\<^sup>2 / 2 + (16 / 10) ^ 4 / 24"
    by (rule cos_upper4) simp
  moreover have "1 - (16 / 10)\<^sup>2 / 2 + (16 / 10) ^ 4 / 24 < (0::real)"
    by (simp add: power_divide)
  ultimately have hi: "cos (16 / 10 :: real) < 0" by linarith
  show "31 / 10 < pi"
  proof (rule ccontr)
    assume "\<not> 31 / 10 < pi"
    then have "pi / 2 \<le> 155 / 100" by simp
    moreover have "(155 / 100 :: real) \<le> pi" using pi_ge_two by linarith
    ultimately have "cos (155 / 100 :: real) \<le> cos (pi / 2)"
      by (intro cos_monotone_0_pi_le) simp_all
    then show False using lo by simp
  qed
  show "pi < 32 / 10"
  proof (rule ccontr)
    assume "\<not> pi < 32 / 10"
    then have "16 / 10 \<le> pi / 2" by simp
    then have "0 \<le> cos (16 / 10 :: real)" by (intro cos_ge_zero) simp_all
    then show False using hi by simp
  qed
qed

lemma arctan_le_self:
  fixes x :: real
  assumes x: "0 \<le> x"
  shows "arctan x \<le> x"
proof -
  have "(\<lambda>t. t - arctan t) 0 \<le> (\<lambda>t. t - arctan t) x"
  proof (rule DERIV_nonneg_imp_nondecreasing [OF x])
    fix t :: real
    assume "0 \<le> t" "t \<le> x"
    have "((\<lambda>t. t - arctan t) has_real_derivative (1 - inverse (1 + t\<^sup>2))) (at t)"
      by (auto intro!: derivative_eq_intros)
    moreover have "0 \<le> 1 - inverse (1 + t\<^sup>2)"
      by (simp add: inverse_le_1_iff add_nonneg_pos)
    ultimately show "\<exists>y. ((\<lambda>t. t - arctan t) has_real_derivative y) (at t) \<and> 0 \<le> y" by blast
  qed
  then show ?thesis by simp
qed

section \<open>Bounds of the haversine distance\<close>

lemma radians_bounds: "0 \<le> x \<Longrightarrow> rad_lo x \<le> radians x \<and> radians x \<le> rad_hi x"
proof -
  assume x: "0 \<le> x"
  have p: "31 / 10 \<le> pi" "pi \<le> 32 / 10" using pi_bounds by simp_all
  have "x * (31 / 10) \<le> x * pi" by (rule mult_left_mono [OF p(1) x])
  moreover have "x * pi \<le> x * (32 / 10)" by (rule mult_left_mono [OF p(2) x])
  ultimately show ?thesis unfolding rad_lo_def rad_hi_def radians_def
    by (intro conjI divide_right_mono) simp_all
qed

lemma sin2_bounds:
  fixes h :: real
  assumes "0 \<le> lo" "lo \<le> \<bar>h\<bar>" "\<bar>h\<bar> \<le> hi" "hi ^ 3 / 6 \<le> lo"
  shows "(lo - hi ^ 3 / 6)\<^sup>2 \<le> (sin h)\<^sup>2" and "(sin h)\<^sup>2 \<le> hi\<^sup>2"
proof -
  define k where "k = \<bar>h\<bar>"
  have k: "0 \<le> k" "lo \<le> k" "k \<le> hi" using assms by (simp_all add: k_def)
  have sq: "(sin h)\<^sup>2 = (sin k)\<^sup>2" by (cases "0 \<le> h") (simp_all add: k_def)
  have "k ^ 3 \<le> hi ^ 3" using k by (intro power_mono) simp_all
  then have lower: "lo - hi ^ 3 / 6 \<le> sin k" using sin_lower3 [OF k(1)] k(2) by linarith
  have upper: "sin k \<le> hi" using sin_x_le_x [OF k(1)] k(3) by linarith
  have nonneg: "0 \<le> lo - hi ^ 3 / 6" using assms(4) by simp
  show "(lo - hi ^ 3 / 6)\<^sup>2 \<le> (sin h)\<^sup>2"
    unfolding sq using lower nonneg by (intro power_mono) simp_all
  have "0 \<le> sin k" using lower nonneg by linarith
  then show "(sin h)\<^sup>2 \<le> hi\<^sup>2"
    unfolding sq using upper by (intro power_mono) simp_all
qed

lemma cos_bounds:
  fixes x :: real
  assumes "0 \<le> lo" "lo \<le> x" "x \<le> hi"
  shows "1 - hi\<^sup>2 / 2 \<le> cos x" and "cos x \<le> 1 - lo\<^sup>2 / 2 + hi ^ 4 / 24"
proof -
  have x: "0 \<le> x" using assms by simp
  have "x\<^sup>2 \<le> hi\<^sup>2" using assms x by (intro power_mono) simp_all
  then show "1 - hi\<^sup>2 / 2 \<le> cos x" using cos_lower2 [OF x] by linarith
  have "lo\<^sup>2 \<le> x\<^sup>2" using assms by (intro power_mono) simp_all
  moreover have "x ^ 4 \<le> hi ^ 4" using assms x by (intro power_mono) simp_all
  ultimately show "cos x \<le> 1 - lo\<^sup>2 / 2 + hi ^ 4 / 24" using cos_upper4 [OF x] by linarith
qed

lemma half_sine_bounds:
  assumes "(rad_hi \<bar>d\<bar> / 2) ^ 3 / 6 \<le> rad_lo \<bar>d\<bar> / 2"
  shows "sin2_lo \<bar>d\<bar> \<le> (sin (radians d / 2))\<^sup>2" and "(sin (radians d / 2))\<^sup>2 \<le> sin2_hi \<bar>d\<bar>"
proof -
  have abs: "\<bar>radians d / 2\<bar> = radians \<bar>d\<bar> / 2"
    by (simp add: radians_def abs_mult)
  have r: "rad_lo \<bar>d\<bar> \<le> radians \<bar>d\<bar>" "radians \<bar>d\<bar> \<le> rad_hi \<bar>d\<bar>"
    using radians_bounds [of "\<bar>d\<bar>"] by simp_all
  have lo0: "0 \<le> rad_lo \<bar>d\<bar> / 2" by (simp add: rad_lo_def)
  have b: "rad_lo \<bar>d\<bar> / 2 \<le> \<bar>radians d / 2\<bar>" "\<bar>radians d / 2\<bar> \<le> rad_hi \<bar>d\<bar> / 2"
    unfolding abs using r by simp_all
  show "sin2_lo \<bar>d\<bar> \<le> (sin (radians d / 2))\<^sup>2"
    unfolding sin2_lo_def by (rule sin2_bounds(1) [OF lo0 b assms])
  show "(sin (radians d / 2))\<^sup>2 \<le> sin2_hi \<bar>d\<bar>"
    unfolding sin2_hi_def by (rule sin2_bounds(2) [OF lo0 b assms])
qed

lemma latitude_cos_bounds:
  assumes "0 \<le> x"
  shows "cos_lo x \<le> cos (radians x)" and "cos (radians x) \<le> cos_hi x"
proof -
  have r: "rad_lo x \<le> radians x" "radians x \<le> rad_hi x"
    using radians_bounds [OF assms] by simp_all
  have lo0: "0 \<le> rad_lo x" using assms by (simp add: rad_lo_def)
  show "cos_lo x \<le> cos (radians x)"
    unfolding cos_lo_def by (rule cos_bounds(1) [OF lo0 r])
  show "cos (radians x) \<le> cos_hi x"
    unfolding cos_hi_def by (rule cos_bounds(2) [OF lo0 r])
qed

lemma haversine_a_enclosure:
  assumes ok: "enclosure_ok lat1 lon1 lat2 lon2"
  shows "haversine_a_lo lat1 lon1 lat2 lon2 \<le> haversine_a lat1 lon1 lat2 lon2"
    and "haversine_a lat1 lon1 lat2 lon2 \<le> haversine_a_hi lat1 lon1 lat2 lon2"
proof -
  define sd where "sd = (sin (radians (lat2 - lat1) / 2))\<^sup>2"
  define sl where "sl = (sin (radians (lon2 - lon1) / 2))\<^sup>2"
  define c1 where "c1 = cos (radians lat1)"
  define c2 where "c2 = cos (radians lat2)"
  have a: "haversine_a lat1 lon1 lat2 lon2 = sd + c1 * c2 * sl"
    by (simp add: haversine_a_def sd_def sl_def c1_def c2_def)
  have sd: "sin2_lo \<bar>lat2 - lat1\<bar> \<le> sd" "sd \<le> sin2_hi \<bar>lat2 - lat1\<bar>"
    unfolding sd_def using half_sine_bounds [of "lat2 - lat1"] ok by (simp_all add: enclosure_ok_def)
  have sl: "sin2_lo \<bar>lon2 - lon1\<bar> \<le> sl" "sl \<le> sin2_hi \<bar>lon2 - lon1\<bar>"
    unfolding sl_def using half_sine_bounds [of "lon2 - lon1"] ok by (simp_all add: enclosure_ok_def)
  have c1: "cos_lo lat1 \<le> c1" "c1 \<le> cos_hi lat1" "0 \<le> cos_lo lat1"
    unfolding c1_def using latitude_cos_bounds [of lat1] ok by (simp_all add: enclosure_ok_def)
  have c2: "cos_lo lat2 \<le> c2" "c2 \<le> cos_hi lat2" "0 \<le> cos_lo lat2"
    unfolding c2_def using latitude_cos_bounds [of lat2] ok by (simp_all add: enclosure_ok_def)
  have sl0: "0 \<le> sin2_lo \<bar>lon2 - lon1\<bar>" "0 \<le> sl" by (simp_all add: sin2_lo_def sl_def)
  have "cos_lo lat1 * cos_lo lat2 \<le> c1 * c2"
    using c1 c2 by (intro mult_mono) simp_all
  moreover note sl(1)
  moreover have "0 \<le> c1 * c2" using c1 c2 by simp
  ultimately have "cos_lo lat1 * cos_lo lat2 * sin2_lo \<bar>lon2 - lon1\<bar> \<le> c1 * c2 * sl"
    using sl0(1) by (rule mult_mono)
  then show "haversine_a_lo lat1 lon1 lat2 lon2 \<le> haversine_a lat1 lon1 lat2 lon2"
    unfolding a haversine_a_lo_def using sd(1) by linarith
  have "c1 * c2 \<le> cos_hi lat1 * cos_hi lat2"
    using c1 c2 by (intro mult_mono) simp_all
  moreover note sl(2)
  moreover have "0 \<le> cos_hi lat1 * cos_hi lat2" using c1 c2 by simp
  ultimately have "c1 * c2 * sl \<le> cos_hi lat1 * cos_hi lat2 * sin2_hi \<bar>lon2 - lon1\<bar>"
    using sl0(2) by (rule mult_mono)
  then show "haversine_a lat1 lon1 lat2 lon2 \<le> haversine_a_hi lat1 lon1 lat2 lon2"
    unfolding a haversine_a_hi_def using sd(2) by linarith
qed

lemma haversine_distance_arctan:
  assumes "haversine_a lat1 lon1 lat2 lon2 < 1"
  shows "haversine_distance lat1 lon1 lat2 lon2 =
     12742 * arctan (sqrt (haversine_a lat1 lon1 lat2 lon2) / sqrt (1 - haversine_a lat1 lon1 lat2 lon2))"
  using assms by (simp add: haversine_distance_def atan2_def)

lemma haversine_distance_ge:
  assumes L: "0 \<le> L" and lo: "(L / 12742)\<^sup>2 \<le> haversine_a lat1 lon1 lat2 lon2"
    and lt1: "haversine_a lat1 lon1 lat2 lon2 < 1"
  shows "L \<le> haversine_distance lat1 lon1 lat2 lon2"
proof -
  define a where "a = haversine_a lat1 lon1 lat2 lon2"
  define t where "t = sqrt a / sqrt (1 - a)"
  have a: "0 \<le> a" "a < 1" using haversine_a_range [of lat1 lon1 lat2 lon2] lt1 by (simp_all add: a_def)
  have t0: "0 \<le> t" using a by (simp add: t_def)
  have "1 + t\<^sup>2 = 1 / (1 - a)"
    using a by (simp add: t_def power_divide field_simps)
  then have "sqrt (1 + t\<^sup>2) = 1 / sqrt (1 - a)" by (simp add: real_sqrt_divide)
  then have "sin (arctan t) = sqrt a"
    using a by (simp add: sin_arctan t_def)
  moreover have "sin (arctan t) \<le> arctan t" using t0 by (intro sin_x_le_x) simp
  moreover have "L / 12742 \<le> sqrt a"
    using lo by (intro real_le_rsqrt) (simp add: a_def)
  ultimately have "L / 12742 \<le> arctan t" by linarith
  then show ?thesis
    unfolding haversine_distance_arctan [OF lt1] a_def [symmetric] t_def [symmetric] by simp
qed

lemma haversine_distance_le:
  assumes U: "0 \<le> U" and lt1: "haversine_a lat1 lon1 lat2 lon2 < 1"
    and hi: "haversine_a lat1 lon1 lat2 lon2 \<le> (U / 12742)\<^sup>2 * (1 - haversine_a lat1 lon1 lat2 lon2)"
  shows "haversine_distance lat1 lon1 lat2 lon2 \<le> U"
proof -
  define a where "a = haversine_a lat1 lon1 lat2 lon2"
  define t where "t = sqrt a / sqrt (1 - a)"
  have a: "0 \<le> a" "a < 1" using haversine_a_range [of lat1 lon1 lat2 lon2] lt1 by (simp_all add: a_def)
  have t0: "0 \<le> t" using a by (simp add: t_def)
  have t: "t = sqrt (a / (1 - a))" by (simp add: t_def real_sqrt_divide)
  have "a / (1 - a) \<le> (U / 12742)\<^sup>2"
    using hi a by (simp add: a_def [symmetric] pos_divide_le_eq)
  then have "sqrt (a / (1 - a)) \<le> sqrt ((U / 12742)\<^sup>2)" by (rule real_sqrt_le_mono)
  moreover have "sqrt ((U / 12742)\<^sup>2) = U / 12742" using U by simp
  ultimately have "t \<le> U / 12742" unfolding t by linarith
  then have "arctan t \<le> U / 12742" using arctan_le_self [OF t0] by linarith
  then show ?thesis
    unfolding haversine_distance_arctan [OF lt1] a_def [symmetric] t_def [symmetric] by simp
qed

lemma haversine_distance_same: "haversine_distance la lo la lo = 0"
  by (simp add: haversine_distance_def haversine_a_def atan2_def radians_def)

section \<open>Distances of the demo graph\<close>

lemma haversine_distance_lower:
  assumes ok: "enclosure_ok lat1 lon1 lat2 lon2" and L: "0 \<le> L"
    and lo: "(L / 12742)\<^sup>2 \<le> haversine_a_lo lat1 lon1 lat2 lon2"
    and hi: "haversine_a_hi lat1 lon1 lat2 lon2 < 1"
  shows "L \<le> haversine_distance lat1 lon1 lat2 lon2"
proof (rule haversine_distance_ge [OF L])
  show "(L / 12742)\<^sup>2 \<le> haversine_a lat1 lon1 lat2 lon2"
    using lo haversine_a_enclosure(1) [OF ok] by linarith
  show "haversine_a lat1 lon1 lat2 lon2 < 1"
    using hi haversine_a_enclosure(2) [OF ok] by linarith
qed

lemma haversine_distance_upper:
  assumes ok: "enclosure_ok lat1 lon1 lat2 lon2" and U: "0 \<le> U"
    and hi: "haversine_a_hi lat1 lon1 lat2 lon2 * (1 + (U / 12742)\<^sup>2) \<le> (U / 12742)\<^sup>2"
    and lt1: "haversine_a_hi lat1 lon1 lat2 lon2 < 1"
  shows "haversine_distance lat1 lon1 lat2 lon2 \<le> U"
proof (rule haversine_distance_le [OF U])
  define a where "a = haversine_a lat1 lon1 lat2 lon2"
  define c where "c = (U / 12742)\<^sup>2"
  have le: "a \<le> haversine_a_hi lat1 lon1 lat2 lon2"
    unfolding a_def by (rule haversine_a_enclosure(2) [OF ok])
  show "haversine_a lat1 lon1 lat2 lon2 < 1" using le lt1 by (simp add: a_def)
  have c: "0 \<le> 1 + c" by (simp add: c_def)
  have "a * (1 + c) \<le> haversine_a_hi lat1 lon1 lat2 lon2 * (1 + c)"
    by (rule mult_right_mono [OF le c])
  then have "a * (1 + c) \<le> c" using hi by (simp add: c_def)
  then have "a \<le> c * (1 - a)" by (simp add: algebra_simps)
  then show "haversine_a lat1 lon1 lat2 lon2
      \<le> (U / 12742)\<^sup>2 * (1 - haversine_a lat1 lon1 lat2 lon2)"
    by (simp add: a_def c_def)
qed

lemmas enclosure_defs = enclosure_ok_def haversine_a_lo_def haversine_a_hi_def
  sin2_lo_def sin2_hi_def cos_lo_def cos_hi_def rad_lo_def rad_hi_def
  power2_eq_square power3_eq_cube power4_eq_xxxx

lemma bandra_kurla_distance_ge:
  "1 / 2 \<le> haversine_distance (fst bandra) (snd bandra) (fst kurla) (snd kurla)"
  by (rule haversine_distance_lower) (simp_all add: enclosure_defs bandra_def kurla_def)

lemma andheri_kurla_distance_ge:
  "1 / 2 \<le> haversine_distance (fst andheri) (snd andheri) (fst kurla) (snd kurla)"
  by (rule haversine_distance_lower) (simp_all add: enclosure_defs andheri_def kurla_def)

lemma andheri_kurla_distance_le:
  "haversine_distance (fst andheri) (snd andheri) (fst kurla) (snd kurla) \<le> 485 / 100"
  by (rule haversine_distance_upper) (simp_all add: enclosure_defs andheri_def kurla_def)

lemma worli_kurla_distance_ge:
  "94 / 10 \<le> haversine_distance (fst worli) (snd worli) (fst kurla) (snd kurla)"
  by (rule haversine_distance_lower) (simp_all add: enclosure_defs worli_def kurla_def)

lemma dadar_kurla_distance_ge:
  "69 / 10 \<le> haversine_distance (fst dadar) (snd dadar) (fst kurla) (snd kurla)"
  by (rule haversine_distance_lower) (simp_all add: enclosure_defs dadar_def kurla_def)

lemma dadar_kurla_distance_le:
  "haversine_distance (fst dadar) (snd dadar) (fst kurla) (snd kurla) \<le> 72 / 10"
  by (rule haversine_distance_upper) (simp_all add: enclosure_defs dadar_def kurla_def)

section \<open>The demo graph\<close>

lemma node_neq:
  "bandra \<noteq> andheri"
  "bandra \<noteq> worli"
  "bandra \<noteq> dadar"
  "bandra \<noteq> churchgate"
  "bandra \<noteq> lower_parel"
  "bandra \<noteq> kurla"
  "andheri \<noteq> bandra"
  "andheri \<noteq> worli"
  "andheri \<noteq> dadar"
  "andheri \<noteq> churchgate"
  "andheri \<noteq> lower_parel"
  "andheri \<noteq> kurla"
  "worli \<noteq> bandra"
  "worli \<noteq> andheri"
  "worli \<noteq> dadar"
  "worli \<noteq> churchgate"
  "worli \<noteq> lower_parel"
  "worli \<noteq> kurla"
  "dadar \<noteq> bandra"
  "dadar \<noteq> andheri"
  "dadar \<noteq> worli"
  "dadar \<noteq> churchgate"
  "dadar \<noteq> lower_parel"
  "dadar \<noteq> kurla"
  "churchgate \<noteq> bandra"
  "churchgate \<noteq> andheri"
  "churchgate \<noteq> worli"
  "churchgate \<noteq> dadar"
  "churchgate \<noteq> lower_parel"
  "churchgate \<noteq> kurla"
  "lower_parel \<noteq> bandra"
  "lower_parel \<noteq> andheri"
  "lower_parel \<noteq> worli"
  "lower_parel \<noteq> dadar"
  "lower_parel \<noteq> churchgate"
  "lower_parel \<noteq> kurla"
  "kurla \<noteq> bandra"
  "kurla \<noteq> andheri"
  "kurla \<noteq> worli"
  "kurla \<noteq> dadar"
  "kurla \<noteq> churchgate"
  "kurla \<noteq> lower_parel"
  by (simp_all add: bandra_def andheri_def worli_def dadar_def churchgate_def lower_parel_def
      kurla_def)

lemma init_mumbai_graph_eq:
  "init_mumbai_graph =
     [(bandra, [(fst andheri, snd andheri, 15), (fst worli, snd worli, 12), (fst dadar, snd dadar, 10)]),
      (andheri, [(fst bandra, snd bandra, 15), (fst kurla, snd kurla, 10)]),
      (worli, [(fst bandra, snd bandra, 12), (fst lower_parel, snd lower_parel, 8),
               (fst churchgate, snd churchgate, 15)]),
      (dadar, [(fst bandra, snd bandra, 10), (fst lower_parel, snd lower_parel, 10),
               (fst kurla, snd kurla, 12)]),
      (lower_parel, [(fst worli, snd worli, 8), (fst dadar, snd dadar, 10),
                     (fst churchgate, snd churchgate, 12)]),
      (churchgate, [(fst worli, snd worli, 15), (fst lower_parel, snd lower_parel, 12)]),
      (kurla, [(fst dadar, snd dadar, 12), (fst andheri, snd andheri, 10)])]"
  unfolding init_mumbai_graph_def mumbai_edges_def
  by (simp add: add_edge_def get_default_def Let_def node_neq cong: let_weak_cong)

section \<open>A search on the demo graph at 23:00\<close>

lemma heuristic_eq: "distance_to_time_heuristic d = 2 * d"
  by (simp add: distance_to_time_heuristic_def)

lemma multiplier_23: "get_traffic_multiplier 23 = 4 / 5"
  by (simp add: get_traffic_multiplier_def traffic_patterns_def)

lemma multiplier_15: "get_traffic_multiplier 15 = 1"
  by (simp add: get_traffic_multiplier_def traffic_patterns_def)

lemma neighbors_bandra:
  "get_neighbors init_mumbai_graph (fst bandra) (snd bandra) =
     [(fst andheri, snd andheri, 15), (fst worli, snd worli, 12), (fst dadar, snd dadar, 10)]"
  by (simp add: get_neighbors_def init_mumbai_graph_eq get_default_def node_neq)

lemma neighbors_andheri:
  "get_neighbors init_mumbai_graph (fst andheri) (snd andheri) =
     [(fst bandra, snd bandra, 15), (fst kurla, snd kurla, 10)]"
  by (simp add: get_neighbors_def init_mumbai_graph_eq get_default_def node_neq)

lemma neighbors_dadar:
  "get_neighbors init_mumbai_graph (fst dadar) (snd dadar) =
     [(fst bandra, snd bandra, 10), (fst lower_parel, snd lower_parel, 10),
      (fst kurla, snd kurla, 12)]"
  by (simp add: get_neighbors_def init_mumbai_graph_eq get_default_def node_neq)

lemma walk_bandra_dadar_kurla:
  "walk_cost init_mumbai_graph (get_traffic_multiplier 23) [bandra, dadar, kurla] = Some (88 / 5)"
  by (simp add: neighbors_bandra neighbors_dadar multiplier_23 node_neq)

lemma walk_dadar_kurla_23:
  "walk_cost init_mumbai_graph (get_traffic_multiplier 23) [dadar, kurla] = Some (48 / 5)"
  by (simp add: neighbors_dadar multiplier_23 node_neq)

lemma walk_dadar_kurla_15:
  "walk_cost init_mumbai_graph (get_traffic_multiplier 15) [dadar, kurla] = Some 12"
  by (simp add: neighbors_dadar multiplier_15 node_neq)

lemma bandra_in_graph: "map_of init_mumbai_graph (fst bandra, snd bandra) \<noteq> None"
  by (simp add: init_mumbai_graph_eq)

text \<open>
  The search from Bandra to Kurla at 23:00 (multiplier 0.8): Bandra is expanded and
  Andheri, Worli and Dadar enter the frontier with \<open>f\<close> within [21.3, 21.7], at least 28.4
  and within [21.8, 22.4]; Andheri is popped and Kurla enters with \<open>f = g = 20\<close>; Kurla is
  popped before Dadar, and the search returns.
\<close>

lemma astar_bandra_kurla_23:
  "astar_search init_mumbai_graph 23 (fst bandra) (snd bandra) (fst kurla) (snd kurla) =
     Some (Some \<lparr>path_found = True, travel_time_mins = 20,
       distance_km = haversine_distance (fst bandra) (snd bandra) (fst kurla) (snd kurla),
       path = [bandra, andheri, kurla], eta_method = ''astar_graph'',
       traffic_multiplier = Some (4 / 5), iterations = Some 3\<rparr>)"
  using bandra_kurla_distance_ge andheri_kurla_distance_ge andheri_kurla_distance_le
    worli_kurla_distance_ge dadar_kurla_distance_ge dadar_kurla_distance_le bandra_in_graph
  apply (simp add: astar_search_def multiplier_23 heuristic_eq heappush_def siftdown_def
      siftdown_loop.simps)
  apply (subst astar_loop.simps)
  apply (simp add: max_iterations_def heappop_def neighbors_bandra node_neq
      heappush_def siftdown_def siftdown_loop.simps heuristic_eq)
  apply (subst astar_loop.simps)
  apply (simp add: max_iterations_def heappop_def neighbors_andheri node_neq
      heappush_def siftdown_def siftdown_loop.simps siftup_def siftup_loop.simps smaller_child_def
      heuristic_eq haversine_distance_same)
  apply (subst astar_loop.simps)
  apply (simp add: max_iterations_def heappop_def node_neq
      heappush_def siftdown_def siftdown_loop.simps siftup_def siftup_loop.simps smaller_child_def
      heuristic_eq haversine_distance_same reconstruct_path_def reconstruct_loop.simps)
  done

lemma heuristic_dadar_kurla:
  "12 < distance_to_time_heuristic
          (haversine_distance (fst dadar) (snd dadar) (fst kurla) (snd kurla))"
  using dadar_kurla_distance_ge by (simp add: heuristic_eq)

section \<open>Order of the emergency structure\<close>

text \<open>
  C1, as the specification states it: whenever the emergency structure is non-empty,
  \<^verbatim>\<open>dequeue_next_patient\<close> returns its record with the minimum priority score, so that of
  two CRITICAL records the lower-scored one is dequeued first. This fails: with B (score
  60) and D (score 70) queued, the record of B is in the emergency structure and D is
  returned.
\<close>

theorem emergency_minimum_counterexample:
  "emergency_queue (run [enq patient_B, enq patient_D]) = [3, 1] \<and>
   token_number (objs (run [enq patient_B, enq patient_D]) ! 1) = 2 \<and>
   - priority_score (objs (run [enq patient_B, enq patient_D]) ! 1) = 60 \<and>
   - priority_score (objs (run [enq patient_B, enq patient_D]) ! 3) = 70 \<and>
   fst (dequeue_next_patient (run [enq patient_B, enq patient_D])) =
     Inr (Some ((objs (run [enq patient_B, enq patient_D]) ! 3)\<lparr>priority_score := 70\<rparr>)) \<and>
   token_number (objs (run [enq patient_B, enq patient_D]) ! 3) = 4"
  by code_simp

text \<open>
  C1, amended: the emergency structure is a max-heap on the priority score, kept as a
  min-heap on the negated score. In every run, when the emergency structure is non-empty,
  \<^verbatim>\<open>dequeue_next_patient\<close> removes one of its records and returns it with the sign of
  the score restored, the main structure is untouched, and no record of the emergency
  structure has a higher priority score than the returned one: of two CRITICAL records
  queued together, the higher-scored one is dequeued first.
\<close>

theorem dequeue_emergency_maximum:
  assumes "emergency_queue (run ops) \<noteq> []"
  shows "\<exists>r \<in> set (emergency_queue (run ops)).
     fst (dequeue_next_patient (run ops)) =
       Inr (Some ((objs (run ops) ! r)\<lparr>priority_score := - priority_score (objs (run ops) ! r)\<rparr>)) \<and>
     mset (emergency_queue (run ops)) =
       add_mset r (mset (emergency_queue (snd (dequeue_next_patient (run ops))))) \<and>
     main_queue (snd (dequeue_next_patient (run ops))) = main_queue (run ops) \<and>
     (\<forall>r' \<in> set (emergency_queue (run ops)).
        - priority_score (objs (run ops) ! r') \<le> - priority_score (objs (run ops) ! r))"
proof -
  let ?s = "run ops"
  let ?r = "emergency_queue ?s ! 0"
  have ie: "inv_emergency (enqueued_nodes ops) ?s"
    using run_inv [of ops] by (simp add: sched_inv_def)
  then have heap: "is_heap (score_of (objs ?s)) (emergency_queue ?s)"
    by (simp add: inv_emergency_def)
  obtain q where pop: "heappop (score_of (objs ?s)) (emergency_queue ?s) = Inr (?r, q)"
    and deq: "dequeue_next_patient ?s =
       (Inr (Some ((objs ?s ! ?r)\<lparr>priority_score := - priority_score (objs ?s ! ?r)\<rparr>)),
        ?s\<lparr>objs := (objs ?s)[?r := (objs ?s ! ?r)\<lparr>priority_score := - priority_score (objs ?s ! ?r)\<rparr>],
          emergency_queue := q,
          patient_map := AList.delete (token_number (objs ?s ! ?r)) (patient_map ?s),
          wait_tracker := AList.delete (token_number (objs ?s ! ?r)) (wait_tracker ?s),
          total_dequeued := total_dequeued ?s + 1\<rparr>)"
    using dequeue_emergency [OF assms] by blast
  have "?r \<in> set (emergency_queue ?s)" using assms by simp
  moreover have "mset (emergency_queue ?s) = add_mset ?r (mset q)"
    using heappop_result(2) [OF pop] .
  moreover have "\<forall>r' \<in> set (emergency_queue ?s).
      - priority_score (objs ?s ! r') \<le> - priority_score (objs ?s ! ?r)"
    using heappop_min [OF heap pop] by (simp add: score_of_def)
  ultimately show ?thesis using deq by auto
qed

theorem dequeue_emergency_maximum_witness:
  "emergency_queue (run [enq patient_B, enq patient_D]) \<noteq> [] \<and>
   (\<exists>r \<in> set (emergency_queue (run [enq patient_B, enq patient_D])).
     fst (dequeue_next_patient (run [enq patient_B, enq patient_D])) =
       Inr (Some ((objs (run [enq patient_B, enq patient_D]) ! r)
         \<lparr>priority_score := - priority_score (objs (run [enq patient_B, enq patient_D]) ! r)\<rparr>)) \<and>
     mset (emergency_queue (run [enq patient_B, enq patient_D])) =
       add_mset r (mset (emergency_queue (snd (dequeue_next_patient (run [enq patient_B, enq patient_D]))))) \<and>
     main_queue (snd (dequeue_next_patient (run [enq patient_B, enq patient_D]))) =
       main_queue (run [enq patient_B, enq patient_D]) \<and>
     (\<forall>r' \<in> set (emergency_queue (run [enq patient_B, enq patient_D])).
        - priority_score (objs (run [enq patient_B, enq patient_D]) ! r')
          \<le> - priority_score (objs (run [enq patient_B, enq patient_D]) ! r)))"
proof -
  have h: "emergency_queue (run [enq patient_B, enq patient_D]) \<noteq> []" by code_simp
  show ?thesis using h dequeue_emergency_maximum [OF h] by blast
qed

section \<open>Tier preemption\<close>

text \<open>
  C2. In every run of the manager (enqueues and dequeues, and removals, updates and aging
  ticks as well), when \<^verbatim>\<open>dequeue_next_patient\<close> returns a record whose tier is NORMAL or
  PRIORITY, no record of either queue is CRITICAL.
\<close>

theorem tier_preemption:
  assumes "fst (dequeue_next_patient (run ops)) = Inr (Some p)"
    and "emergency_level p \<noteq> CRITICAL"
  shows "\<forall>r \<in> set (emergency_queue (run ops)) \<union> set (main_queue (run ops)).
           emergency_level (objs (run ops) ! r) \<noteq> CRITICAL"
proof -
  let ?s = "run ops"
  have im: "inv_main ?s" and ie: "inv_emergency (enqueued_nodes ops) ?s"
    using run_inv [of ops] by (simp_all add: sched_inv_def)
  have "emergency_queue ?s = []"
  proof (rule ccontr)
    assume ne: "emergency_queue ?s \<noteq> []"
    let ?r = "emergency_queue ?s ! 0"
    have "fst (dequeue_next_patient ?s) =
      Inr (Some ((objs ?s ! ?r)\<lparr>priority_score := - priority_score (objs ?s ! ?r)\<rparr>))"
      using dequeue_emergency [OF ne] by auto
    then have "emergency_level p = emergency_level (objs ?s ! ?r)" using assms(1) by auto
    moreover have "emergency_level (objs ?s ! ?r) = CRITICAL"
      by (rule inv_emergencyD(3) [OF ie]) (use ne in simp)
    ultimately show False using assms(2) by simp
  qed
  then show ?thesis using im by (simp add: inv_main_def)
qed

theorem tier_preemption_witness:
  "fst (dequeue_next_patient (run [enq patient_A, enq patient_B, enq patient_C, Dequeue])) =
     Inr (Some (objs (run [enq patient_A, enq patient_B, enq patient_C, Dequeue]) ! 3)) \<and>
   emergency_level (objs (run [enq patient_A, enq patient_B, enq patient_C, Dequeue]) ! 3) \<noteq> CRITICAL \<and>
   CRITICAL \<notin>
     (\<lambda>r. emergency_level (objs (run [enq patient_A, enq patient_B, enq patient_C, Dequeue]) ! r)) `
       (set (emergency_queue (run [enq patient_A, enq patient_B, enq patient_C, Dequeue])) \<union>
        set (main_queue (run [enq patient_A, enq patient_B, enq patient_C, Dequeue])))"
proof -
  have h1: "fst (dequeue_next_patient (run [enq patient_A, enq patient_B, enq patient_C, Dequeue])) =
     Inr (Some (objs (run [enq patient_A, enq patient_B, enq patient_C, Dequeue]) ! 3))"
    by code_simp
  have h2: "emergency_level (objs (run [enq patient_A, enq patient_B, enq patient_C, Dequeue]) ! 3) \<noteq> CRITICAL"
    by code_simp
  show ?thesis using h1 h2 tier_preemption [OF h1 h2] by force
qed

section \<open>Removal of an unknown token\<close>

text \<open>
  C9. \<^verbatim>\<open>remove_patient\<close> called with a token that is not in the token index returns
  false and leaves the manager as it was: both queues, the index, the wait tracker and the
  counters.
\<close>

theorem remove_patient_unknown:
  "map_of (patient_map s) tok = None \<Longrightarrow> remove_patient tok s = (False, s)"
  by (simp add: remove_patient_def)

theorem remove_patient_unknown_witness:
  "map_of (patient_map (run [enq patient_A, enq patient_B])) 99 = None \<and>
   remove_patient 99 (run [enq patient_A, enq patient_B]) = (False, run [enq patient_A, enq patient_B])"
proof -
  have h: "map_of (patient_map (run [enq patient_A, enq patient_B])) 99 = None"
    by code_simp
  show ?thesis using h remove_patient_unknown [OF h] by simp
qed

section \<open>Classification and scoring at enqueue\<close>

text \<open>
  C3, as the specification states it: enqueue computes the priority score as
  \<open>5 * tier + 2 * travel + 1 * consult - 3 * waiting + 1.5 * (1 - arrival_probability)\<close>.
  This fails: the score is that value, computed in double precision, rounded to two
  decimals. A booking with urgency 2,
  a travel time of 0.001 minutes and 15 minutes of consultation gets the score 15, and
  the formula gives 15.002.
\<close>

theorem enqueue_score_counterexample:
  "enqueued_score (booking 7 ''X'' 2 (1 / 1000) 15) init_scheduler = Some 15 \<and>
   map_option score_formula
     (case fst (enqueue_patient (booking 7 ''X'' 2 (1 / 1000) 15) ''10:00'' ''10:00'' init_scheduler) of
        Inr p \<Rightarrow> Some p | Inl e \<Rightarrow> None) = Some (15002 / 1000)"
  by code_simp

text \<open>
  C3, amended. When \<^verbatim>\<open>enqueue_patient\<close> returns a node, its tier follows the rule on the
  urgency score (absent: 5) that 8 and more is CRITICAL, 6 and more PRIORITY, anything
  else NORMAL; it has waited 0 minutes and arrives with probability 1; its priority score
  is what \<^verbatim>\<open>calculate_priority_score\<close> gives on its fields, the formula
  \<open>5 * tier + 2 * travel + 1 * consult - 3 * waiting + 1.5 * (1 - arrival_probability)\<close>
  evaluated in double precision and rounded to two decimals: a float that, when the
  travel time and the consultation time are at most \<open>10\<^sup>6\<close>, is within 0.005001 of the
  exact value of the formula, and equal to it when the travel time is a whole number of
  minutes; a CRITICAL node goes to the emergency structure
  (as a negated copy) and any other to the main structure. In the scenario of the three
  patients A, B and C the scores are 62, 60 and 45, B is in the emergency structure, and
  the dequeue order is B, C, A.
\<close>

theorem enqueue_tier_and_score:
  assumes "fst (enqueue_patient pd now1 now2 s) = Inr p"
  shows "(8 \<le> get_default (urgency_score (get_default (pd_symptoms_analysis pd) empty_analysis)) 5
            \<longrightarrow> emergency_level p = CRITICAL) \<and>
         (6 \<le> get_default (urgency_score (get_default (pd_symptoms_analysis pd) empty_analysis)) 5 \<and>
          get_default (urgency_score (get_default (pd_symptoms_analysis pd) empty_analysis)) 5 < 8
            \<longrightarrow> emergency_level p = PRIORITY) \<and>
         (get_default (urgency_score (get_default (pd_symptoms_analysis pd) empty_analysis)) 5 < 6
            \<longrightarrow> emergency_level p = NORMAL) \<and>
         waiting_time_mins p = 0 \<and> arrival_probability p = 1 \<and>
         priority_score p = calculate_priority_score p \<and>
         fl (priority_score p) = priority_score p \<and>
         (\<bar>travel_eta_mins p\<bar> \<le> 1000000 \<and>
          \<bar>of_int (predicted_consult_mins p) :: real\<bar> \<le> 1000000
            \<longrightarrow> \<bar>priority_score p - score_formula p\<bar> \<le> 5001 / 1000000 \<and>
                (travel_eta_mins p \<in> \<int> \<longrightarrow> priority_score p = score_formula p)) \<and>
         (emergency_level p = CRITICAL \<longrightarrow>
            main_queue (snd (enqueue_patient pd now1 now2 s)) = main_queue s \<and>
            mset (emergency_queue (snd (enqueue_patient pd now1 now2 s))) =
              add_mset (Suc (length (objs s))) (mset (emergency_queue s)) \<and>
            objs (snd (enqueue_patient pd now1 now2 s)) ! Suc (length (objs s)) = negated_copy p) \<and>
         (emergency_level p \<noteq> CRITICAL \<longrightarrow>
            emergency_queue (snd (enqueue_patient pd now1 now2 s)) = emergency_queue s \<and>
            mset (main_queue (snd (enqueue_patient pd now1 now2 s))) =
              add_mset (length (objs s)) (mset (main_queue s)) \<and>
            objs (snd (enqueue_patient pd now1 now2 s)) ! length (objs s) = p) \<and>
         enqueued_score patient_A init_scheduler = Some 62 \<and>
         enqueued_level patient_A init_scheduler = Some NORMAL \<and>
         enqueued_score patient_B (run [enq patient_A]) = Some 60 \<and>
         enqueued_level patient_B (run [enq patient_A]) = Some CRITICAL \<and>
         enqueued_score patient_C (run [enq patient_A, enq patient_B]) = Some 45 \<and>
         enqueued_level patient_C (run [enq patient_A, enq patient_B]) = Some NORMAL \<and>
         queue_tokens (run [enq patient_A, enq patient_B, enq patient_C])
           (emergency_queue (run [enq patient_A, enq patient_B, enq patient_C])) = [2] \<and>
         dequeue_tokens 3 (run [enq patient_A, enq patient_B, enq patient_C]) = [2, 3, 1]"
proof -
  have ok: "\<not> (pd_token_number pd = None \<or> pd_name pd = None \<or> pd_contact_number pd = None)"
  proof
    assume "pd_token_number pd = None \<or> pd_name pd = None \<or> pd_contact_number pd = None"
    then have "fst (enqueue_patient pd now1 now2 s) = Inl KeyError"
      by (simp add: enqueue_patient_KeyError)
    then show False using assms by simp
  qed
  then obtain tok nm c where f: "pd_token_number pd = Some tok" "pd_name pd = Some nm"
    "pd_contact_number pd = Some c" by auto
  let ?P = "new_patient pd tok nm c now1 now2"
  have p: "p = ?P"
    using assms enqueue_patient_critical [OF f, of now1 now2 s] enqueue_patient_main [OF f, of now1 now2 s]
    by (cases "emergency_level ?P = CRITICAL") simp_all
  have tier: "emergency_level p =
      classify_urgency (get_default (urgency_score (get_default (pd_symptoms_analysis pd) empty_analysis)) 5)"
    unfolding p by (rule new_patient_fields(5))
  have general: "waiting_time_mins p = 0" "arrival_probability p = 1"
    "priority_score p = calculate_priority_score p"
    unfolding p by (simp_all add: new_patient_fields)
  have double: "fl (priority_score p) = priority_score p"
    unfolding general(3) by (simp add: calculate_priority_score_def py_round2_def)
  have near: "\<bar>priority_score p - score_formula p\<bar> \<le> 5001 / 1000000"
    if "\<bar>travel_eta_mins p\<bar> \<le> 1000000"
      and "\<bar>of_int (predicted_consult_mins p) :: real\<bar> \<le> 1000000"
    unfolding general(3) using that general(1,2)
    by (intro calculate_priority_score_error) simp_all
  have whole: "priority_score p = score_formula p"
    if "\<bar>travel_eta_mins p\<bar> \<le> 1000000"
      and "\<bar>of_int (predicted_consult_mins p) :: real\<bar> \<le> 1000000"
      and "travel_eta_mins p \<in> \<int>"
    unfolding general(3) using that general(1,2)
    by (intro calculate_priority_score_whole) simp_all
  have crit: "main_queue (snd (enqueue_patient pd now1 now2 s)) = main_queue s \<and>
            mset (emergency_queue (snd (enqueue_patient pd now1 now2 s))) =
              add_mset (Suc (length (objs s))) (mset (emergency_queue s)) \<and>
            objs (snd (enqueue_patient pd now1 now2 s)) ! Suc (length (objs s)) = negated_copy p"
    if "emergency_level p = CRITICAL"
    using that unfolding p
    by (simp add: enqueue_patient_critical [OF f] mset_heappush nth_append)
  have main: "emergency_queue (snd (enqueue_patient pd now1 now2 s)) = emergency_queue s \<and>
            mset (main_queue (snd (enqueue_patient pd now1 now2 s))) =
              add_mset (length (objs s)) (mset (main_queue s)) \<and>
            objs (snd (enqueue_patient pd now1 now2 s)) ! length (objs s) = p"
    if "emergency_level p \<noteq> CRITICAL"
    using that unfolding p
    by (simp add: enqueue_patient_main [OF f] mset_heappush)
  have sA: "enqueued_score patient_A init_scheduler = Some 62"
    and lA: "enqueued_level patient_A init_scheduler = Some NORMAL"
    and sB: "enqueued_score patient_B (run [enq patient_A]) = Some 60"
    and lB: "enqueued_level patient_B (run [enq patient_A]) = Some CRITICAL"
    and sC: "enqueued_score patient_C (run [enq patient_A, enq patient_B]) = Some 45"
    and lC: "enqueued_level patient_C (run [enq patient_A, enq patient_B]) = Some NORMAL"
    by code_simp+
  have place: "queue_tokens (run [enq patient_A, enq patient_B, enq patient_C])
           (emergency_queue (run [enq patient_A, enq patient_B, enq patient_C])) = [2]"
    by code_simp
  have order: "dequeue_tokens 3 (run [enq patient_A, enq patient_B, enq patient_C]) = [2, 3, 1]"
    by code_simp
  show ?thesis
    using tier general double near whole crit main sA lA sB lB sC lC place order
    by (simp add: classify_urgency_def)
qed

theorem enqueue_tier_and_score_witness:
  "fst (enqueue_patient patient_B ''10:00'' ''10:00'' (run [enq patient_A])) =
     Inr (objs (run [enq patient_A, enq patient_B]) ! 1) \<and>
   emergency_level (objs (run [enq patient_A, enq patient_B]) ! 1) = CRITICAL \<and>
   travel_eta_mins (objs (run [enq patient_A, enq patient_B]) ! 1) = 10 \<and>
   predicted_consult_mins (objs (run [enq patient_A, enq patient_B]) ! 1) = 30 \<and>
   score_formula (objs (run [enq patient_A, enq patient_B]) ! 1) = 60 \<and>
   priority_score (objs (run [enq patient_A, enq patient_B]) ! 1) = 60 \<and>
   \<bar>priority_score (objs (run [enq patient_A, enq patient_B]) ! 1) -
      score_formula (objs (run [enq patient_A, enq patient_B]) ! 1)\<bar> \<le> 5001 / 1000000"
proof -
  have h: "fst (enqueue_patient patient_B ''10:00'' ''10:00'' (run [enq patient_A])) =
     Inr (objs (run [enq patient_A, enq patient_B]) ! 1)"
    by code_simp
  have u: "8 \<le> get_default (urgency_score (get_default (pd_symptoms_analysis patient_B) empty_analysis)) 5"
    by code_simp
  have v: "priority_score (objs (run [enq patient_A, enq patient_B]) ! 1) = 60"
    by code_simp
  have f: "travel_eta_mins (objs (run [enq patient_A, enq patient_B]) ! 1) = 10"
    "predicted_consult_mins (objs (run [enq patient_A, enq patient_B]) ! 1) = 30"
    "score_formula (objs (run [enq patient_A, enq patient_B]) ! 1) = 60"
    by code_simp+
  show ?thesis using h u v f enqueue_tier_and_score [OF h] by simp
qed

section \<open>Scores of queued records after a mutation\<close>

text \<open>
  C4. After every mutating operation the score held with every queued record, the entries
  of the emergency structure included, is the formula on the record's present fields. The
  manager does not keep this for the emergency structure: after the CRITICAL patient B is
  enqueued and one aging tick of 5 minutes has passed, the tracked record of token 2 has
  waited 5 minutes and has the score 45 of its present fields, while the entry of token 2
  in the emergency structure still holds the score 60 and a waiting time of 0.
\<close>

theorem emergency_entry_stale:
  "emergency_queue (run [enq patient_B, Aging 5]) = [1] \<and>
   token_number (objs (run [enq patient_B, Aging 5]) ! 1) = 2 \<and>
   map_of (patient_map (run [enq patient_B, Aging 5])) 2 = Some 0 \<and>
   map_of (wait_tracker (run [enq patient_B, Aging 5])) 2 = Some 5 \<and>
   waiting_time_mins (objs (run [enq patient_B, Aging 5]) ! 0) = 5 \<and>
   priority_score (objs (run [enq patient_B, Aging 5]) ! 0) = 45 \<and>
   calculate_priority_score (objs (run [enq patient_B, Aging 5]) ! 0) = 45 \<and>
   - priority_score (objs (run [enq patient_B, Aging 5]) ! 1) = 60 \<and>
   waiting_time_mins (objs (run [enq patient_B, Aging 5]) ! 1) = 0"
  by code_simp

section \<open>Aging\<close>

text \<open>
  C6, as the specification states it: three ticks of 5 minutes on a record that has waited
  0 minutes leave it with a priority score exactly 45 lower. This fails: the score is
  rounded to two decimals at every recalculation. A booking with a travel time of 0.0125
  minutes and 15 minutes of consultation has the sum 15.025 in double precision, a little
  above the decimal 15.025, and the score 15.03; after the three ticks the sum is a little
  below -29.975 and the score is -29.98, which is 45.01 lower.
\<close>

theorem aging_exact_counterexample:
  "waiting_time_mins (objs (run [enq (booking 7 ''X'' 2 (fl (1 / 80)) 15)]) ! 0) = 0 \<and>
   priority_score (objs (run [enq (booking 7 ''X'' 2 (fl (1 / 80)) 15)]) ! 0) = fl (1503 / 100) \<and>
   waiting_time_mins
     (objs (run [enq (booking 7 ''X'' 2 (fl (1 / 80)) 15), Aging 5, Aging 5, Aging 5]) ! 0) = 15 \<and>
   priority_score
     (objs (run [enq (booking 7 ''X'' 2 (fl (1 / 80)) 15), Aging 5, Aging 5, Aging 5]) ! 0) =
       fl (- 2998 / 100) \<and>
   priority_score
     (objs (run [enq (booking 7 ''X'' 2 (fl (1 / 80)) 15), Aging 5, Aging 5, Aging 5]) ! 0) <
   priority_score (objs (run [enq (booking 7 ''X'' 2 (fl (1 / 80)) 15)]) ! 0) - 45"
  by code_simp

text \<open>
  C6, amended. Take a manager in which every tracked token has its own node and a wait
  tracker entry equal to the waiting time of that node, which is a float, and a tracked
  token. An aging tick of \<open>e \<ge> 0\<close> minutes raises no error, keeps all of this, makes the
  waiting time of the tracked node the float sum of the old one and \<open>e\<close>, which is not below
  the old one, and leaves the node with the score of its fields; if the node had the score
  of its fields before the tick (as after an enqueue, an update or an earlier tick), the
  score does not increase. Three ticks of 5 minutes on such a node that has waited 0
  minutes, with a travel time, a consultation time and an arrival probability of at most
  \<open>10\<^sup>6\<close>, leave it with a waiting time of 15 and a score that is 45 lower up to the
  rounding to two decimals: the difference is within 0.010002 of 45, and it is exactly 45
  when the travel time is a whole number of minutes and the arrival probability is 1. The
  statement is
  about the node that \<open>patient_map\<close> holds; the separate entry of a CRITICAL patient in the
  emergency structure is the subject of C4.
\<close>

theorem aging_monotone:
  assumes ok: "tracking_ok s" and m: "map_of (patient_map s) tok = Some r" and e: "0 \<le> e"
    and dbl: "fl (waiting_time_mins (objs s ! r)) = waiting_time_mins (objs s ! r)"
  shows "fst (apply_aging e s) = None \<and>
     tracking_ok (apply_op (Aging e) s) \<and>
     map_of (patient_map (apply_op (Aging e) s)) tok = Some r \<and>
     waiting_time_mins (objs (apply_op (Aging e) s) ! r) = fadd (waiting_time_mins (objs s ! r)) e \<and>
     fl (waiting_time_mins (objs (apply_op (Aging e) s) ! r)) =
       waiting_time_mins (objs (apply_op (Aging e) s) ! r) \<and>
     waiting_time_mins (objs s ! r) \<le> waiting_time_mins (objs (apply_op (Aging e) s) ! r) \<and>
     priority_score (objs (apply_op (Aging e) s) ! r) =
       calculate_priority_score (objs (apply_op (Aging e) s) ! r) \<and>
     (priority_score (objs s ! r) = calculate_priority_score (objs s ! r) \<longrightarrow>
        priority_score (objs (apply_op (Aging e) s) ! r) \<le> priority_score (objs s ! r)) \<and>
     (waiting_time_mins (objs s ! r) = 0 \<and>
      priority_score (objs s ! r) = calculate_priority_score (objs s ! r) \<and>
      \<bar>travel_eta_mins (objs s ! r)\<bar> \<le> 1000000 \<and>
      \<bar>of_int (predicted_consult_mins (objs s ! r)) :: real\<bar> \<le> 1000000 \<and>
      \<bar>arrival_probability (objs s ! r)\<bar> \<le> 1000000 \<longrightarrow>
        waiting_time_mins (objs (fold apply_op [Aging 5, Aging 5, Aging 5] s) ! r) = 15 \<and>
        \<bar>priority_score (objs s ! r) - 45 -
           priority_score (objs (fold apply_op [Aging 5, Aging 5, Aging 5] s) ! r)\<bar>
          \<le> 10002 / 1000000 \<and>
        (travel_eta_mins (objs s ! r) \<in> \<int> \<and> arrival_probability (objs s ! r) = 1 \<longrightarrow>
           priority_score (objs (fold apply_op [Aging 5, Aging 5, Aging 5] s) ! r) =
             priority_score (objs s ! r) - 45))"
proof -
  let ?p = "objs s ! r"
  let ?s' = "apply_op (Aging e) s"
  have tick: "fst (apply_aging e s) = None" "patient_map ?s' = patient_map s"
    "objs ?s' ! r = age_node (fadd (waiting_time_mins ?p) e) ?p" "tracking_ok ?s'"
    using apply_aging_tracked [OF ok m, of e] by simp_all
  have "waiting_time_mins ?p + 0 \<le> waiting_time_mins ?p + e" using e by simp
  then have "fl (waiting_time_mins ?p + 0) \<le> fl (waiting_time_mins ?p + e)" by (rule fl_mono)
  then have w_le: "waiting_time_mins ?p \<le> fadd (waiting_time_mins ?p) e"
    using dbl by (simp add: fadd_def)
  have self: "?p\<lparr>waiting_time_mins := waiting_time_mins ?p\<rparr> = ?p" by simp
  have s_le: "calculate_priority_score (?p\<lparr>waiting_time_mins := fadd (waiting_time_mins ?p) e\<rparr>)
      \<le> calculate_priority_score ?p"
    using calculate_priority_score_waiting_mono [OF w_le, of ?p] by (simp only: self)
  have three: "waiting_time_mins (objs (fold apply_op [Aging 5, Aging 5, Aging 5] s) ! r) = 15 \<and>
        \<bar>priority_score ?p - 45 -
           priority_score (objs (fold apply_op [Aging 5, Aging 5, Aging 5] s) ! r)\<bar>
          \<le> 10002 / 1000000 \<and>
        (travel_eta_mins ?p \<in> \<int> \<and> arrival_probability ?p = 1 \<longrightarrow>
           priority_score (objs (fold apply_op [Aging 5, Aging 5, Aging 5] s) ! r) =
             priority_score ?p - 45)"
    if w: "waiting_time_mins ?p = 0"
      and cur: "priority_score ?p = calculate_priority_score ?p"
      and bt: "\<bar>travel_eta_mins ?p\<bar> \<le> 1000000"
      and bc: "\<bar>of_int (predicted_consult_mins ?p) :: real\<bar> \<le> 1000000"
      and ba: "\<bar>arrival_probability ?p\<bar> \<le> 1000000"
  proof -
    define s1 where "s1 = apply_op (Aging 5) s"
    define s2 where "s2 = apply_op (Aging 5) s1"
    define s3 where "s3 = apply_op (Aging 5) s2"
    have t1: "tracking_ok s1" "map_of (patient_map s1) tok = Some r" "objs s1 ! r = age_node 5 ?p"
      using apply_aging_tracked [OF ok m, of 5] m w by (simp_all add: s1_def fadd_ticks)
    have t2: "tracking_ok s2" "map_of (patient_map s2) tok = Some r" "objs s2 ! r = age_node 10 ?p"
      using apply_aging_tracked [OF t1(1,2), of 5] t1(2,3)
      by (simp_all add: s2_def fadd_ticks age_node_fields2 age_node_twice)
    have t3: "objs s3 ! r = age_node 15 ?p"
      using apply_aging_tracked [OF t2(1,2), of 5] t2(3)
      by (simp_all add: s3_def fadd_ticks age_node_fields2 age_node_twice)
    have s3: "fold apply_op [Aging 5, Aging 5, Aging 5] s = s3" by (simp add: s3_def s2_def s1_def)
    let ?q = "?p\<lparr>waiting_time_mins := 15\<rparr>"
    have e0: "\<bar>calculate_priority_score ?p - score_formula ?p\<bar> \<le> 5001 / 1000000"
      using bt bc ba w by (intro calculate_priority_score_error) simp_all
    have e15: "\<bar>calculate_priority_score ?q - score_formula ?q\<bar> \<le> 5001 / 1000000"
      using bt bc ba by (intro calculate_priority_score_error) simp_all
    have f: "score_formula ?q = score_formula ?p - 45" using w by (simp add: score_formula_waiting)
    have near: "\<bar>calculate_priority_score ?p - 45 - calculate_priority_score ?q\<bar> \<le> 10002 / 1000000"
      using e0 e15 unfolding f by argo
    have whole: "calculate_priority_score ?q = calculate_priority_score ?p - 45"
      if z: "travel_eta_mins ?p \<in> \<int>" and a: "arrival_probability ?p = 1"
    proof -
      have "calculate_priority_score ?p = score_formula ?p"
        using z a bt bc w by (intro calculate_priority_score_whole) simp_all
      moreover have "calculate_priority_score ?q = score_formula ?q"
        using z a bt bc by (intro calculate_priority_score_whole) simp_all
      ultimately show ?thesis using f by simp
    qed
    show ?thesis unfolding s3 t3 using cur near whole by (simp add: age_node_fields2)
  qed
  show ?thesis
    using tick m w_le s_le three by (simp add: age_node_fields2 fl_fadd)
qed

theorem aging_monotone_witness:
  "tracking_ok (run [enq patient_A, enq patient_B]) \<and>
   map_of (patient_map (run [enq patient_A, enq patient_B])) 1 = Some 0 \<and> (0::real) \<le> 5 \<and>
   waiting_time_mins (objs (run [enq patient_A, enq patient_B]) ! 0) = 0 \<and>
   priority_score (objs (run [enq patient_A, enq patient_B]) ! 0) = 62 \<and>
   calculate_priority_score (objs (run [enq patient_A, enq patient_B]) ! 0) = 62 \<and>
   travel_eta_mins (objs (run [enq patient_A, enq patient_B]) ! 0) = 25 \<and>
   predicted_consult_mins (objs (run [enq patient_A, enq patient_B]) ! 0) = 12 \<and>
   arrival_probability (objs (run [enq patient_A, enq patient_B]) ! 0) = 1 \<and>
   waiting_time_mins (objs (apply_op (Aging 5) (run [enq patient_A, enq patient_B])) ! 0) = 5 \<and>
   priority_score (objs (apply_op (Aging 5) (run [enq patient_A, enq patient_B])) ! 0)
     \<le> priority_score (objs (run [enq patient_A, enq patient_B]) ! 0) \<and>
   waiting_time_mins
     (objs (fold apply_op [Aging 5, Aging 5, Aging 5] (run [enq patient_A, enq patient_B])) ! 0) = 15 \<and>
   \<bar>62 - 45 - priority_score
     (objs (fold apply_op [Aging 5, Aging 5, Aging 5] (run [enq patient_A, enq patient_B])) ! 0)\<bar>
     \<le> 10002 / 1000000 \<and>
   priority_score
     (objs (fold apply_op [Aging 5, Aging 5, Aging 5] (run [enq patient_A, enq patient_B])) ! 0) = 17"
proof -
  have ok: "tracking_ok (run [enq patient_A, enq patient_B])" by code_simp
  have h: "map_of (patient_map (run [enq patient_A, enq patient_B])) 1 = Some 0" by code_simp
  have w: "waiting_time_mins (objs (run [enq patient_A, enq patient_B]) ! 0) = 0" by code_simp
  have s: "priority_score (objs (run [enq patient_A, enq patient_B]) ! 0) = 62" by code_simp
  have c: "calculate_priority_score (objs (run [enq patient_A, enq patient_B]) ! 0) = 62" by code_simp
  have f: "travel_eta_mins (objs (run [enq patient_A, enq patient_B]) ! 0) = 25"
    "predicted_consult_mins (objs (run [enq patient_A, enq patient_B]) ! 0) = 12"
    "arrival_probability (objs (run [enq patient_A, enq patient_B]) ! 0) = 1"
    by code_simp+
  have e: "(0::real) \<le> 5" by simp
  have d: "fl (waiting_time_mins (objs (run [enq patient_A, enq patient_B]) ! 0)) =
      waiting_time_mins (objs (run [enq patient_A, enq patient_B]) ! 0)"
    by (simp add: w)
  have t: "fadd 0 5 = 5" by (rule fadd_ticks)
  show ?thesis using ok h w s c f t aging_monotone [OF ok h e d] by simp
qed

section \<open>What a dequeued CRITICAL record carries\<close>

text \<open>
  C10. In every run, when the emergency structure is non-empty, the node that
  \<^verbatim>\<open>dequeue_next_patient\<close> returns, and the copy that \<^verbatim>\<open>peek\<close> returns, is the entry made
  for a CRITICAL patient when it was enqueued, with the sign of the score restored: its
  priority score is the score computed at enqueue time, its waiting time is 0, its
  arrival probability 1, its location, travel data, booking time and arrival fields are
  the empty defaults, whatever aging ticks and attribute updates the run has made since.
\<close>

theorem dequeued_emergency_node:
  assumes "emergency_queue (run ops) \<noteq> []"
  shows "\<exists>P \<in> set (enqueued_nodes ops). \<exists>p.
     emergency_level P = CRITICAL \<and>
     fst (dequeue_next_patient (run ops)) = Inr (Some p) \<and> peek (run ops) = Some p \<and>
     token_number p = token_number P \<and> priority_score p = priority_score P \<and>
     waiting_time_mins p = 0 \<and> arrival_probability p = 1 \<and> location p = '''' \<and>
     travel_data p = empty_travel \<and> booking_time p = '''' \<and>
     expected_arrival p = None \<and> actual_arrival p = None \<and> last_priority_update p = ''''"
proof -
  let ?s = "run ops"
  let ?r = "emergency_queue ?s ! 0"
  have ie: "inv_emergency (enqueued_nodes ops) ?s"
    using run_inv [of ops] by (simp add: sched_inv_def)
  have "?r \<in> set (emergency_queue ?s)" using assms by simp
  then obtain P where P: "P \<in> set (enqueued_nodes ops)" "emergency_level P = CRITICAL"
    "objs ?s ! ?r = negated_copy P"
    using inv_emergencyD(2) [OF ie] by blast
  let ?p = "(negated_copy P)\<lparr>priority_score := priority_score P\<rparr>"
  have "fst (dequeue_next_patient ?s) = Inr (Some ?p)"
    using dequeue_emergency [OF assms] P(3) by (auto simp: negated_copy_fields)
  moreover have "peek ?s = Some ?p"
    using assms P(3) by (simp add: peek_def negated_copy_def)
  ultimately show ?thesis
    using P(1,2) by (intro bexI [of _ P] exI [of _ ?p]) (simp_all add: negated_copy_def)
qed

theorem dequeued_emergency_node_witness:
  "emergency_queue (run [enq patient_B, Aging 5, Update 2 closer ''10:07'', Aging 5]) \<noteq> [] \<and>
   waiting_time_mins (objs (run [enq patient_B, Aging 5, Update 2 closer ''10:07'', Aging 5]) ! 0) = 10 \<and>
   priority_score (objs (run [enq patient_B, Aging 5, Update 2 closer ''10:07'', Aging 5]) ! 0) = 16 \<and>
   (\<exists>P \<in> set (enqueued_nodes [enq patient_B, Aging 5, Update 2 closer ''10:07'', Aging 5]). \<exists>p.
     emergency_level P = CRITICAL \<and>
     fst (dequeue_next_patient (run [enq patient_B, Aging 5, Update 2 closer ''10:07'', Aging 5])) =
       Inr (Some p) \<and>
     peek (run [enq patient_B, Aging 5, Update 2 closer ''10:07'', Aging 5]) = Some p \<and>
     token_number p = token_number P \<and> priority_score p = priority_score P \<and>
     waiting_time_mins p = 0 \<and> arrival_probability p = 1 \<and> location p = '''' \<and>
     travel_data p = empty_travel \<and> booking_time p = '''' \<and>
     expected_arrival p = None \<and> actual_arrival p = None \<and> last_priority_update p = '''')"
proof -
  have h: "emergency_queue (run [enq patient_B, Aging 5, Update 2 closer ''10:07'', Aging 5]) \<noteq> []"
    by code_simp
  have w: "waiting_time_mins (objs (run [enq patient_B, Aging 5, Update 2 closer ''10:07'', Aging 5]) ! 0) = 10"
    by code_simp
  have s: "priority_score (objs (run [enq patient_B, Aging 5, Update 2 closer ''10:07'', Aging 5]) ! 0) = 16"
    by code_simp
  show ?thesis using h w s dequeued_emergency_node [OF h] by blast
qed

section \<open>The queue snapshot\<close>

text \<open>
  C8, as the specification states it: the snapshot lists all records of the emergency
  structure by ascending score, followed by all records of the main structure by
  ascending score. This fails: with the CRITICAL patient B (score 60) and the PRIORITY
  patient P (score 25) queued, P is in the main structure and is listed before B.
\<close>

theorem snapshot_order_counterexample:
  "queue_tokens (run [enq patient_B, enq patient_P]) (emergency_queue (run [enq patient_B, enq patient_P])) = [2] \<and>
   queue_tokens (run [enq patient_B, enq patient_P]) (main_queue (run [enq patient_B, enq patient_P])) = [5] \<and>
   map se_token_number (patients (fst (get_queue_snapshot (run [enq patient_B, enq patient_P])))) = [5, 2] \<and>
   map se_token_number (snapshot_order_spec (run [enq patient_B, enq patient_P])) = [2, 5] \<and>
   patients (fst (get_queue_snapshot (run [enq patient_B, enq patient_P]))) \<noteq>
     snapshot_order_spec (run [enq patient_B, enq patient_P])"
  by code_simp

text \<open>
  C8, amended. \<^verbatim>\<open>get_queue_snapshot\<close> leaves the manager as it was, and a second call
  returns the same snapshot. The list holds every record of both structures once. Its
  first \<open>emergency_count\<close> entries are the records of tier PRIORITY or CRITICAL, which are
  all records of the emergency structure and the PRIORITY records of the main structure,
  by ascending priority score; the NORMAL records follow, by ascending priority score.
  The lifetime counters are those of the manager.
\<close>

theorem snapshot_order:
  "snd (get_queue_snapshot s) = s \<and>
   get_queue_snapshot (snd (get_queue_snapshot s)) = get_queue_snapshot s \<and>
   mset (patients (fst (get_queue_snapshot s))) = mset (all_patients s) \<and>
   sorted (map se_priority_score
     (take (emergency_count (fst (get_queue_snapshot s))) (patients (fst (get_queue_snapshot s))))) \<and>
   sorted (map se_priority_score
     (drop (emergency_count (fst (get_queue_snapshot s))) (patients (fst (get_queue_snapshot s))))) \<and>
   (\<forall>e \<in> set (take (emergency_count (fst (get_queue_snapshot s))) (patients (fst (get_queue_snapshot s)))).
      se_emergency_level e = ''PRIORITY'' \<or> se_emergency_level e = ''CRITICAL'') \<and>
   (\<forall>e \<in> set (drop (emergency_count (fst (get_queue_snapshot s))) (patients (fst (get_queue_snapshot s)))).
      se_emergency_level e = ''NORMAL'') \<and>
   emergency_entry s ` set (emergency_queue s) \<subseteq>
     set (take (emergency_count (fst (get_queue_snapshot s))) (patients (fst (get_queue_snapshot s)))) \<and>
   stat_total_enqueued (fst (get_queue_snapshot s)) = total_enqueued s \<and>
   stat_total_dequeued (fst (get_queue_snapshot s)) = total_dequeued s \<and>
   stat_reorder_count (fst (get_queue_snapshot s)) = reorder_count s"
proof -
  let ?urgent = "\<lambda>p. se_emergency_level p \<in> set [''PRIORITY'', ''CRITICAL'']"
  let ?normal = "\<lambda>p. se_emergency_level p = ''NORMAL''"
  let ?E = "sort_key se_priority_score (filter ?urgent (all_patients s))"
  let ?M = "sort_key se_priority_score (filter ?normal (all_patients s))"
  have pat: "patients (fst (get_queue_snapshot s)) = ?E @ ?M"
    and cnt: "emergency_count (fst (get_queue_snapshot s)) = length ?E"
    and st: "snd (get_queue_snapshot s) = s"
    and counters: "stat_total_enqueued (fst (get_queue_snapshot s)) = total_enqueued s"
      "stat_total_dequeued (fst (get_queue_snapshot s)) = total_dequeued s"
      "stat_reorder_count (fst (get_queue_snapshot s)) = reorder_count s"
    by (simp_all add: get_queue_snapshot_def Let_def)
  have lvl: "?urgent e \<noteq> ?normal e" if "e \<in> set (all_patients s)" for e
  proof -
    have "se_emergency_level e = ''CRITICAL'' \<or>
        (\<exists>l. se_emergency_level e = level_name l)"
      using that by (auto simp: all_patients_def emergency_entry_def main_entry_def)
    then show ?thesis
    proof
      assume "se_emergency_level e = ''CRITICAL''"
      then show ?thesis by simp
    next
      assume "\<exists>l. se_emergency_level e = level_name l"
      then obtain l where "se_emergency_level e = level_name l" by blast
      then show ?thesis by (cases l) simp_all
    qed
  qed
  have "mset (filter ?normal (all_patients s)) = mset (filter (\<lambda>e. \<not> ?urgent e) (all_patients s))"
    using lvl by (intro arg_cong [where f = mset] filter_cong) auto
  then have ms: "mset (?E @ ?M) = mset (all_patients s)"
    by simp
  have em: "emergency_entry s ` set (emergency_queue s) \<subseteq> set ?E"
    by (auto simp: all_patients_def emergency_entry_def)
  show ?thesis
    unfolding pat cnt st
    using ms em counters by (auto simp: pat cnt st)
qed

theorem snapshot_order_witness:
  "snd (get_queue_snapshot (run [enq patient_A, enq patient_B, enq patient_P])) =
     run [enq patient_A, enq patient_B, enq patient_P] \<and>
   map se_token_number
     (patients (fst (get_queue_snapshot (run [enq patient_A, enq patient_B, enq patient_P])))) = [5, 2, 1] \<and>
   emergency_count (fst (get_queue_snapshot (run [enq patient_A, enq patient_B, enq patient_P]))) = 2 \<and>
   sorted (map se_priority_score
     (take (emergency_count (fst (get_queue_snapshot (run [enq patient_A, enq patient_B, enq patient_P]))))
        (patients (fst (get_queue_snapshot (run [enq patient_A, enq patient_B, enq patient_P]))))))"
proof -
  have a: "map se_token_number
     (patients (fst (get_queue_snapshot (run [enq patient_A, enq patient_B, enq patient_P])))) = [5, 2, 1]"
    by code_simp
  have b: "emergency_count (fst (get_queue_snapshot (run [enq patient_A, enq patient_B, enq patient_P]))) = 2"
    by code_simp
  show ?thesis
    using a b snapshot_order [of "run [enq patient_A, enq patient_B, enq patient_P]"] by blast
qed

section \<open>The A* search against the cheapest walk\<close>

text \<open>
  C5. The claim: the heuristic (haversine distance converted to minutes at 30 km/h) never
  overestimates the remaining traffic-scaled travel time on the demo graph, and so the
  travel time that the A* search returns is the minimal one, for every reachable pair and
  every traffic multiplier. The code does not meet it. The edge from Dadar to Kurla takes
  12 base minutes, while the heuristic of Dadar for the goal Kurla is more than 13.8
  minutes: it overestimates at the multiplier 1.0 of 15:00 and at the multiplier 0.8 of
  23:00. At 23:00 the search from Bandra to Kurla returns 20 minutes along Bandra, Andheri,
  Kurla after 3 iterations, while the walk Bandra, Dadar, Kurla takes 17.6 minutes.
\<close>

theorem astar_search_not_minimal:
  "astar_search init_mumbai_graph 23 (fst bandra) (snd bandra) (fst kurla) (snd kurla) =
     Some (Some \<lparr>path_found = True, travel_time_mins = 20,
       distance_km = haversine_distance (fst bandra) (snd bandra) (fst kurla) (snd kurla),
       path = [bandra, andheri, kurla], eta_method = ''astar_graph'',
       traffic_multiplier = Some (4 / 5), iterations = Some 3\<rparr>) \<and>
   walk_cost init_mumbai_graph (get_traffic_multiplier 23) [bandra, dadar, kurla] = Some (88 / 5) \<and>
   walk_cost init_mumbai_graph (get_traffic_multiplier 23) [dadar, kurla] = Some (48 / 5) \<and>
   walk_cost init_mumbai_graph (get_traffic_multiplier 15) [dadar, kurla] = Some 12 \<and>
   12 < distance_to_time_heuristic
          (haversine_distance (fst dadar) (snd dadar) (fst kurla) (snd kurla))"
  by (intro conjI astar_bandra_kurla_23 walk_bandra_dadar_kurla walk_dadar_kurla_23
      walk_dadar_kurla_15 heuristic_dadar_kurla)

end
